theory Spec2Isabelle
  imports Main "HOL-Library.Word"
begin

unbundle bit_operations_syntax

section \<open>Bytes, errors and the external interfaces\<close>

type_synonym byte = "8 word"
type_synonym bytes = "byte list"

text \<open>
  Go errors as values. \<open>EOF\<close>, \<open>ErrUnexpectedEOF\<close> and \<open>ErrShortBuffer\<close> are the
  sentinels of package io; every other error is \<open>Err\<close> with its message.
  \<open>Errorf\<close> is \<open>fmt.Errorf(fmt + ": %v", err)\<close>.
\<close>

datatype error = EOF | ErrUnexpectedEOF | ErrShortBuffer | Err string

fun Error :: "error \<Rightarrow> string" where
  "Error EOF = ''EOF''"
| "Error ErrUnexpectedEOF = ''unexpected EOF''"
| "Error ErrShortBuffer = ''short buffer''"
| "Error (Err m) = m"

definition Errorf :: "string \<Rightarrow> error \<Rightarrow> error" where
  "Errorf m e = Err (m @ '': '' @ Error e)"

text \<open>
  \<open>cipher.AEAD\<close> (crypto/cipher) and \<open>shadowaead.Cipher\<close> are interfaces of other
  packages; the codec is parametric in them. \<open>Seal a nonce plaintext\<close> is the
  ciphertext with its tag, \<open>Open a nonce ciphertext\<close> the plaintext or an error. The
  additional data is always nil in this package.
\<close>

record aead =
  NonceSize :: nat
  Overhead :: nat
  Seal :: "bytes \<Rightarrow> bytes \<Rightarrow> bytes"
  Open :: "bytes \<Rightarrow> bytes \<Rightarrow> error + bytes"

record Cipher =
  SaltSize :: nat
  Encrypter :: "bytes \<Rightarrow> error + aead"
  Decrypter :: "bytes \<Rightarrow> error + aead"

section \<open>cipher\_list.go\<close>

text \<open>
  \<open>net.IP\<close> is a byte slice that may be nil: \<open>None\<close> is the nil slice, whose
  length is 0.
\<close>

type_synonym IP = "bytes option"

definition ip_bytes :: "IP \<Rightarrow> bytes" where
  "ip_bytes ip = (case ip of None \<Rightarrow> [] | Some b \<Rightarrow> b)"

definition v4InV6Prefix :: bytes where
  "v4InV6Prefix = [0, 0, 0, 0, 0, 0, 0, 0, 0, 0, 0xff, 0xff]"

text \<open>
  \<open>net.IP.Equal\<close> of the standard library: equal byte strings, or an IPv4 address
  and its IPv4-in-IPv6 form.
\<close>

definition IP_Equal :: "IP \<Rightarrow> IP \<Rightarrow> bool" where
  "IP_Equal ip x =
     (let a = ip_bytes ip; b = ip_bytes x in
      if length a = length b then a = b
      else if length a = 4 \<and> length b = 16 then take 12 b = v4InV6Prefix \<and> a = drop 12 b
      else if length a = 16 \<and> length b = 4 then take 12 a = v4InV6Prefix \<and> drop 12 a = b
      else False)"

record CipherEntry =
  ID :: string
  Cipher :: Cipher
  lastClientIP :: IP

text \<open>
  A \<open>*list.Element\<close> is a pointer: elements are addresses, \<open>Value\<close> is the heap
  that holds each element's \<open>CipherEntry\<close>, \<open>list\<close> is the order of the
  elements linked into \<open>cl.list\<close>, front first, and \<open>allocated\<close> is the next
  fresh address. The lock is not modelled: every operation runs alone.
\<close>

type_synonym Element = nat

record cipherList =
  list :: "Element list"
  Value :: "Element \<Rightarrow> CipherEntry"
  allocated :: nat

definition NewCipherList :: cipherList where
  "NewCipherList =
     \<lparr>list = [],
      Value = (\<lambda>_. \<lparr>ID = [], Cipher = \<lparr>SaltSize = 0, Encrypter = (\<lambda>_. Inl (Err [])),
                                            Decrypter = (\<lambda>_. Inl (Err []))\<rparr>,
                    lastClientIP = None\<rparr>),
      allocated = 0\<rparr>"

definition PushBack :: "string \<Rightarrow> Cipher \<Rightarrow> cipherList \<Rightarrow> Element \<times> cipherList" where
  "PushBack id' cipher cl =
     (let e = allocated cl in
      (e, cl\<lparr>list := list cl @ [e],
             Value := (Value cl)(e := \<lparr>ID = id', Cipher = cipher, lastClientIP = None\<rparr>),
             allocated := Suc e\<rparr>))"

definition matchesIP :: "cipherList \<Rightarrow> Element \<Rightarrow> IP \<Rightarrow> bool" where
  "matchesIP cl e clientIP =
     (let c = Value cl e in clientIP \<noteq> None \<and> IP_Equal clientIP (lastClientIP c))"

text \<open>The loop of \<open>SafeSnapshotForClientIP\<close>, from the element it stands at.\<close>

fun snapshot_loop ::
  "cipherList \<Rightarrow> IP \<Rightarrow> Element list \<Rightarrow> Element list \<Rightarrow> Element list
     \<Rightarrow> Element list \<times> Element list" where
  "snapshot_loop cl clientIP [] cipherArray remainingCiphers = (cipherArray, remainingCiphers)"
| "snapshot_loop cl clientIP (e # es) cipherArray remainingCiphers =
     (if matchesIP cl e clientIP
      then snapshot_loop cl clientIP es (cipherArray @ [e]) remainingCiphers
      else snapshot_loop cl clientIP es cipherArray (remainingCiphers @ [e]))"

definition SafeSnapshotForClientIP :: "IP \<Rightarrow> cipherList \<Rightarrow> Element list" where
  "SafeSnapshotForClientIP clientIP cl =
     (case snapshot_loop cl clientIP (list cl) [] [] of
        (cipherArray, remainingCiphers) \<Rightarrow> cipherArray @ remainingCiphers)"

text \<open>
  \<open>list.MoveToFront\<close> of container/list: nothing happens when the element is not
  in this list or is already the front.
\<close>

definition MoveToFront :: "Element \<Rightarrow> Element list \<Rightarrow> Element list" where
  "MoveToFront e l =
     (if e \<notin> set l \<or> (case l of [] \<Rightarrow> False | x # _ \<Rightarrow> x = e) then l
      else e # removeAll e l)"

definition SafeMarkUsedByClientIP :: "Element \<Rightarrow> IP \<Rightarrow> cipherList \<Rightarrow> cipherList" where
  "SafeMarkUsedByClientIP e clientIP cl =
     (let cl1 = cl\<lparr>list := MoveToFront e (list cl)\<rparr>;
          c = Value cl1 e
      in cl1\<lparr>Value := (Value cl1)(e := c\<lparr>lastClientIP := clientIP\<rparr>)\<rparr>)"

text \<open>
  The registry states are the ones the three operations reach from
  \<open>NewCipherList\<close>.
\<close>

datatype cl_op = OpPushBack string Cipher | OpMarkUsed Element IP

fun cl_step :: "cipherList \<Rightarrow> cl_op \<Rightarrow> cipherList" where
  "cl_step cl (OpPushBack i c) = snd (PushBack i c cl)"
| "cl_step cl (OpMarkUsed e ip) = SafeMarkUsedByClientIP e ip cl"

definition cl_run :: "cl_op list \<Rightarrow> cipherList" where
  "cl_run ops = foldl cl_step NewCipherList ops"

section \<open>stream.go: the environment\<close>

text \<open>
  An \<open>io.Reader\<close> is modelled by what it is going to deliver: a list of segments,
  each a byte string with the error that comes with its last byte (\<open>None\<close> is
  nil). \<open>Read r n\<close> is one call with a buffer of \<open>n\<close> bytes: it returns at most
  \<open>n\<close> bytes of the first segment, and \<open>EOF\<close> once nothing is left. A reader that
  never ends is outside this model.
\<close>

type_synonym reader = "(bytes \<times> error option) list"

fun Read :: "reader \<Rightarrow> nat \<Rightarrow> (bytes \<times> error option) \<times> reader" where
  "Read [] n = (([], Some EOF), [])"
| "Read ((d, e) # r) n =
     (if length d \<le> n then ((d, e), r) else ((take n d, None), (drop n d, e) # r))"

text \<open>\<open>bytes.Reader\<close> after \<open>Reset(p)\<close>: the bytes of \<open>p\<close>, then \<open>EOF\<close>.\<close>

definition byteWrapper :: "bytes \<Rightarrow> reader" where
  "byteWrapper p = (if p = [] then [] else [(p, None)])"

fun reader_size :: "reader \<Rightarrow> nat" where
  "reader_size [] = 0"
| "reader_size ((d, e) # r) = Suc (length d) + reader_size r"

lemma Read_size_le: "Read r n = (res, r') \<Longrightarrow> reader_size r' \<le> reader_size r"
  by (cases r) (auto split: if_splits)

lemma Read_size_less:
  "Read r n = ((d, None), r') \<Longrightarrow> 0 < n \<Longrightarrow> reader_size r' < reader_size r"
  by (cases r) (auto split: if_splits)

text \<open>
  \<open>io.ReadFull(r, buf)\<close> with \<open>len(buf) = m\<close>, the loop of \<open>io.ReadAtLeast\<close>:
  \<open>acc\<close> is \<open>buf[:n]\<close>, the bytes read so far. The result is the bytes copied
  into \<open>buf\<close> and the error.
\<close>

function ReadFull_loop :: "reader \<Rightarrow> nat \<Rightarrow> bytes \<Rightarrow> (bytes \<times> error option) \<times> reader" where
  "ReadFull_loop r m acc =
     (if length acc < m then
        (case Read r (m - length acc) of
           ((d, None), r') \<Rightarrow> ReadFull_loop r' m (acc @ d)
         | ((d, Some err), r') \<Rightarrow>
             if m \<le> length (acc @ d) then ((acc @ d, None), r')
             else if 0 < length (acc @ d) \<and> err = EOF then ((acc @ d, Some ErrUnexpectedEOF), r')
             else ((acc @ d, Some err), r'))
      else ((acc, None), r))"
  by pat_completeness auto
termination
  by (relation "measure (\<lambda>(r, m, acc). reader_size r)") (auto intro: Read_size_less [OF sym])

declare ReadFull_loop.simps [simp del]

definition ReadFull :: "reader \<Rightarrow> nat \<Rightarrow> (bytes \<times> error option) \<times> reader" where
  "ReadFull r m = ReadFull_loop r m []"

text \<open>
  An \<open>io.Writer\<close>: \<open>written\<close> records the slice of every \<open>Write\<close> call, in
  order; \<open>results\<close> are the outcomes of the calls to come, \<open>None\<close> for a complete
  write and \<open>Some (n, err)\<close> for one that fails after \<open>n\<close> bytes. With no outcome
  left every write is complete.
\<close>

record sink =
  written :: "bytes list"
  results :: "(nat \<times> error) option list"

definition sink_Write :: "bytes \<Rightarrow> sink \<Rightarrow> (nat \<times> error option) \<times> sink" where
  "sink_Write p w =
     (case results w of
        [] \<Rightarrow> ((length p, None), w\<lparr>written := written w @ [p]\<rparr>)
      | None # rs \<Rightarrow> ((length p, None), w\<lparr>written := written w @ [p], results := rs\<rparr>)
      | Some (n, err) # rs \<Rightarrow>
          ((min n (length p), Some err), w\<lparr>written := written w @ [p], results := rs\<rparr>))"

text \<open>
  Slices of a buffer: \<open>slice buf lo hi\<close> is \<open>buf[lo:hi]\<close>, and \<open>blit buf off d\<close>
  is the buffer after \<open>d\<close> has been stored from index \<open>off\<close> on.
\<close>

definition slice :: "bytes \<Rightarrow> nat \<Rightarrow> nat \<Rightarrow> bytes" where
  "slice buf lo hi = take (hi - lo) (drop lo buf)"

definition blit :: "bytes \<Rightarrow> nat \<Rightarrow> bytes \<Rightarrow> bytes" where
  "blit buf off d = take off buf @ d @ drop (off + length d) buf"

text \<open>\<open>binary.BigEndian.PutUint16\<close> and \<open>binary.BigEndian.Uint16\<close>.\<close>

definition PutUint16 :: "16 word \<Rightarrow> bytes" where
  "PutUint16 v = [ucast (drop_bit 8 v), ucast v]"

definition Uint16 :: "bytes \<Rightarrow> 16 word" where
  "Uint16 b = ucast (b ! 1) OR push_bit 8 (ucast (b ! 0))"

section \<open>stream.go: the writer\<close>

definition payloadSizeMask :: nat where
  "payloadSizeMask = 0x3FFF"

text \<open>
  \<open>sw_flush\<close> is the \<open>sync.Once\<close>: true once \<open>Do\<close> has run. \<open>sw_aead\<close> is
  \<open>None\<close> while \<open>sw.aead\<close> is nil. \<open>sw_rand\<close> is \<open>crypto/rand.Reader\<close>, and
  \<open>sw_sealed\<close> records the calls of \<open>sw.aead.Seal\<close>, in order, each with its
  nonce and its plaintext. The \<open>byteWrapper\<close> field is the reader handed to
  \<open>readFrom\<close>.
\<close>

record shadowsocksWriter =
  sw_writer :: sink
  sw_ssCipher :: Cipher
  sw_flush :: bool
  sw_pending :: nat
  sw_buf :: bytes
  sw_aead :: "aead option"
  sw_counter :: bytes
  sw_rand :: reader
  sw_sealed :: "(bytes \<times> bytes) list"

definition NewShadowsocksWriter :: "sink \<Rightarrow> Cipher \<Rightarrow> reader \<Rightarrow> shadowsocksWriter" where
  "NewShadowsocksWriter writer ssCipher rnd =
     \<lparr>sw_writer = writer, sw_ssCipher = ssCipher, sw_flush = False, sw_pending = 0,
      sw_buf = [], sw_aead = None, sw_counter = [], sw_rand = rnd, sw_sealed = []\<rparr>"

definition sw_init :: "shadowsocksWriter \<Rightarrow> error option \<times> shadowsocksWriter" where
  "sw_init sw =
     (if sw_aead sw = None then
        (case ReadFull (sw_rand sw) (SaltSize (sw_ssCipher sw)) of
           ((salt, Some err), rnd) \<Rightarrow>
             (Some (Errorf ''failed to generate salt'' err), sw\<lparr>sw_rand := rnd\<rparr>)
         | ((salt, None), rnd) \<Rightarrow>
             (case Encrypter (sw_ssCipher sw) salt of
                Inl err \<Rightarrow> (Some (Errorf ''failed to create AEAD'' err), sw\<lparr>sw_rand := rnd\<rparr>)
              | Inr a \<Rightarrow>
                  (let sizeBufSize = 2 + Overhead a;
                       maxPayloadBufSize = payloadSizeMask + Overhead a
                   in (None, sw\<lparr>sw_rand := rnd, sw_aead := Some a,
                                sw_counter := replicate (NonceSize a) 0,
                                sw_buf := salt @ replicate (sizeBufSize + maxPayloadBufSize) 0\<rparr>))))
      else (None, sw))"

text \<open>\<open>increment\<close>: add one to a little-endian counter, wrapping around.\<close>

fun increment :: "bytes \<Rightarrow> bytes" where
  "increment [] = []"
| "increment (b # bs) = (if b + 1 \<noteq> 0 then (b + 1) # bs else (b + 1) # increment bs)"

fun isZero :: "bytes \<Rightarrow> bool" where
  "isZero [] = True"
| "isZero (v # vs) = (if v \<noteq> 0 then False else isZero vs)"

text \<open>
  \<open>encryptBlock off n\<close> is \<open>sw.encryptBlock(sw.buf[off : off+n])\<close>.
  \<open>Seal(plaintext[:0], ...)\<close> appends to a slice whose capacity runs to the end of
  \<open>sw.buf\<close>: the output is stored in place when it fits there, and in a fresh array
  otherwise. \<open>None\<close> is a panic (here the nil \<open>sw.aead\<close>).
\<close>

definition encryptBlock :: "nat \<Rightarrow> nat \<Rightarrow> shadowsocksWriter \<Rightarrow> (nat \<times> shadowsocksWriter) option" where
  "encryptBlock off n sw =
     (case sw_aead sw of
        None \<Rightarrow> None
      | Some a \<Rightarrow>
          (let plaintext = slice (sw_buf sw) off (off + n);
               out = Seal a (sw_counter sw) plaintext
           in Some (length out,
                sw\<lparr>sw_buf := (if off + length out \<le> length (sw_buf sw)
                               then blit (sw_buf sw) off out else sw_buf sw),
                   sw_counter := increment (sw_counter sw),
                   sw_sealed := sw_sealed sw @ [(sw_counter sw, plaintext)]\<rparr>)))"

datatype mode = modeNormal | modeLazy | modeFlush

text \<open>
  One pass through the loop of \<open>readFrom\<close>. \<open>saltSize\<close> and \<open>sizeLen\<close> (the
  length of \<open>sizeBuf\<close>) are fixed before the loop; the reader, \<open>start\<close> and
  \<open>written\<close> change. \<open>Inl\<close> is a return, \<open>Inr\<close> the variables for the next pass,
  \<open>None\<close> a panic (a slice out of range).

  \<open>emitChunk\<close> is the body of the \<open>if\<close> (lines 181 to 186), \<open>loop_end\<close> the test of
  \<open>err\<close> that ends each pass.
\<close>

type_synonym readFrom_result = "(nat \<times> error option) \<times> shadowsocksWriter"

definition emitChunk ::
  "nat \<Rightarrow> nat \<Rightarrow> nat \<Rightarrow> shadowsocksWriter \<Rightarrow> (error option \<times> shadowsocksWriter) option" where
  "emitChunk saltSize sizeLen start sw =
     (let sw1 = sw\<lparr>sw_buf := blit (sw_buf sw) saltSize (PutUint16 (of_nat (sw_pending sw)))\<rparr>
      in case encryptBlock saltSize 2 sw1 of
           None \<Rightarrow> None
         | Some (_, sw2) \<Rightarrow>
             (case encryptBlock (saltSize + sizeLen) (sw_pending sw2) sw2 of
                None \<Rightarrow> None
              | Some (payloadSize, sw3) \<Rightarrow>
                  if length (sw_buf sw3) < saltSize + sizeLen + payloadSize then None
                  else (case sink_Write (slice (sw_buf sw3) start (saltSize + sizeLen + payloadSize))
                               (sw_writer sw3) of
                          ((_, err), w) \<Rightarrow> Some (err, sw3\<lparr>sw_writer := w, sw_pending := 0\<rparr>))))"

definition loop_end ::
  "error option \<Rightarrow> reader \<Rightarrow> nat \<Rightarrow> nat \<Rightarrow> shadowsocksWriter
     \<Rightarrow> readFrom_result + (reader \<times> nat \<times> nat \<times> shadowsocksWriter)" where
  "loop_end err r start written' sw =
     (case err of
        None \<Rightarrow> Inr (r, start, written', sw)
      | Some e \<Rightarrow>
          if e = EOF then Inl ((written', None), sw)
          else Inl ((written', Some (Errorf ''Failed to read payload'' e)), sw))"

definition readFrom_iter ::
  "mode \<Rightarrow> nat \<Rightarrow> nat \<Rightarrow> reader \<Rightarrow> nat \<Rightarrow> nat \<Rightarrow> shadowsocksWriter
     \<Rightarrow> (readFrom_result + (reader \<times> nat \<times> nat \<times> shadowsocksWriter)) option" where
  "readFrom_iter md saltSize sizeLen r start written' sw =
     (if payloadSizeMask < sw_pending sw
         \<or> length (sw_buf sw) < saltSize + sizeLen + payloadSizeMask then None
      else
        (case Read r (payloadSizeMask - sw_pending sw) of
           ((d, err), r') \<Rightarrow>
             (let sw1 = sw\<lparr>sw_buf := blit (sw_buf sw) (saltSize + sizeLen + sw_pending sw) d,
                           sw_pending := sw_pending sw + length d\<rparr>;
                  written1 = written' + length d
              in if sw_pending sw1 = payloadSizeMask \<or> (md \<noteq> modeLazy \<and> 0 < sw_pending sw1)
                 then (case emitChunk saltSize sizeLen start sw1 of
                         None \<Rightarrow> None
                       | Some (err', sw2) \<Rightarrow> Some (loop_end err' r' saltSize written1 sw2))
                 else Some (loop_end err r' start written1 sw1))))"

lemma Read_length: "Read r n = ((d, e), r') \<Longrightarrow> length d \<le> n"
  by (cases r) (auto split: if_splits)

lemma Read_data_size_less:
  "Read r n = ((d, e), r') \<Longrightarrow> d \<noteq> [] \<Longrightarrow> reader_size r' < reader_size r"
  by (cases r) (auto split: if_splits)

lemma emitChunk_pending:
  "emitChunk saltSize sizeLen start sw = Some (err, sw') \<Longrightarrow> sw_pending sw' = 0"
  by (auto simp: emitChunk_def Let_def split: option.splits prod.splits if_splits)

lemma readFrom_iter_decreases:
  assumes "readFrom_iter md saltSize sizeLen r start written' sw = Some (Inr (r', start', written'', sw'))"
  shows "reader_size r' < reader_size r
         \<or> (reader_size r' = reader_size r \<and> sw_pending sw' < sw_pending sw)"
proof -
  obtain d err r1 where rd: "Read r (payloadSizeMask - sw_pending sw) = ((d, err), r1)"
    by (metis surj_pair)
  have le: "reader_size r1 \<le> reader_size r"
    using rd by (rule Read_size_le)
  have bound: "sw_pending sw \<le> payloadSizeMask"
    using assms by (auto simp: readFrom_iter_def split: if_splits)
  show ?thesis
  proof (cases "sw_pending sw + length d = payloadSizeMask
                \<or> (md \<noteq> modeLazy \<and> 0 < sw_pending sw + length d)")
    case True
    then obtain err' sw2 where
      em: "emitChunk saltSize sizeLen start
             (sw\<lparr>sw_buf := blit (sw_buf sw) (saltSize + sizeLen + sw_pending sw) d,
                 sw_pending := sw_pending sw + length d\<rparr>) = Some (err', sw2)"
      and res: "loop_end err' r1 saltSize (written' + length d) sw2
                  = Inr (r', start', written'', sw')"
      using assms rd
      by (auto simp: readFrom_iter_def Let_def split: if_splits option.splits)
    from res have eq: "r' = r1" "sw' = sw2"
      by (auto simp: loop_end_def split: option.splits if_splits)
    have p0: "sw_pending sw' = 0"
      using emitChunk_pending [OF em] eq by simp
    show ?thesis
    proof (cases "d = []")
      case True
      with \<open>sw_pending sw + length d = payloadSizeMask
            \<or> (md \<noteq> modeLazy \<and> 0 < sw_pending sw + length d)\<close>
      have "0 < sw_pending sw" by (auto simp: payloadSizeMask_def)
      with p0 le eq show ?thesis by auto
    next
      case False
      from Read_data_size_less [OF rd False] eq show ?thesis by simp
    qed
  next
    case False
    then have res: "loop_end err r1 start (written' + length d)
             (sw\<lparr>sw_buf := blit (sw_buf sw) (saltSize + sizeLen + sw_pending sw) d,
                 sw_pending := sw_pending sw + length d\<rparr>) = Inr (r', start', written'', sw')"
      using assms rd
      by (auto simp: readFrom_iter_def Let_def split: if_splits option.splits)
    then have e: "err = None" and eq: "r' = r1"
      by (auto simp: loop_end_def split: option.splits if_splits)
    from False bound Read_length [OF rd] have "0 < payloadSizeMask - sw_pending sw" by auto
    from Read_size_less [OF rd [unfolded e] this] eq show ?thesis by simp
  qed
qed

function readFrom_loop ::
  "mode \<Rightarrow> nat \<Rightarrow> nat \<Rightarrow> reader \<Rightarrow> nat \<Rightarrow> nat \<Rightarrow> shadowsocksWriter \<Rightarrow> readFrom_result option" where
  "readFrom_loop md saltSize sizeLen r start written' sw =
     (case readFrom_iter md saltSize sizeLen r start written' sw of
        None \<Rightarrow> None
      | Some (Inl res) \<Rightarrow> Some res
      | Some (Inr (r', start', written'', sw')) \<Rightarrow>
          readFrom_loop md saltSize sizeLen r' start' written'' sw')"
  by pat_completeness auto
termination
proof (relation "inv_image (less_than <*lex*> less_than)
                   (\<lambda>(md, saltSize, sizeLen, r, start, written', sw). (reader_size r, sw_pending sw))",
       goal_cases)
  case 1
  show ?case by (intro wf_inv_image wf_lex_prod wf_less_than)
next
  case (2 md saltSize sizeLen r start written' sw x2 b x y xa ya xb yb)
  then have "readFrom_iter md saltSize sizeLen r start written' sw = Some (Inr (x, xa, xb, yb))"
    by simp
  from readFrom_iter_decreases [OF this] show ?case by auto
qed

declare readFrom_loop.simps [simp del]

text \<open>
  \<open>readFrom\<close>. The slices \<open>sizeBuf\<close> and \<open>payloadBuf\<close> are the parts of
  \<open>sw.buf\<close> from \<open>saltSize\<close> and from \<open>saltSize + sizeLen\<close> on.
\<close>

definition readFrom :: "reader \<Rightarrow> mode \<Rightarrow> shadowsocksWriter \<Rightarrow> readFrom_result option" where
  "readFrom r md sw =
     (case sw_init sw of
        (Some err, sw0) \<Rightarrow> Some ((0, Some err), sw0)
      | (None, sw0) \<Rightarrow>
          (let sw1 = (if md = modeNormal then sw0\<lparr>sw_flush := True\<rparr> else sw0);
               saltSize = SaltSize (sw_ssCipher sw1);
               start = (if isZero (sw_counter sw1) then 0 else saltSize)
           in case sw_aead sw1 of
                None \<Rightarrow> None
              | Some a \<Rightarrow>
                  if length (sw_buf sw1) < saltSize + 2 + Overhead a then None
                  else readFrom_loop md saltSize (2 + Overhead a) r start 0 sw1))"

definition write_mode :: "bytes \<Rightarrow> mode \<Rightarrow> shadowsocksWriter \<Rightarrow> readFrom_result option" where
  "write_mode p md sw = readFrom (byteWrapper p) md sw"

definition Write :: "bytes \<Rightarrow> shadowsocksWriter \<Rightarrow> readFrom_result option" where
  "Write p sw = write_mode p modeNormal sw"

definition LazyWrite :: "bytes \<Rightarrow> shadowsocksWriter \<Rightarrow> readFrom_result option" where
  "LazyWrite p sw = write_mode p modeLazy (sw\<lparr>sw_flush := False\<rparr>)"

definition Flush :: "shadowsocksWriter \<Rightarrow> (error option \<times> shadowsocksWriter) option" where
  "Flush sw =
     (if sw_flush sw then Some (None, sw)
      else (case write_mode [] modeFlush sw of
              None \<Rightarrow> None
            | Some ((_, err), sw') \<Rightarrow> Some (err, sw'\<lparr>sw_flush := True\<rparr>)))"

definition ReadFrom :: "reader \<Rightarrow> shadowsocksWriter \<Rightarrow> readFrom_result option" where
  "ReadFrom r sw = readFrom r modeNormal sw"

text \<open>
  Sequences of calls on one writer, from a single thread. \<open>sw_step\<close> is the writer
  after one call, \<open>None\<close> when the call panics; the values the call returns are
  dropped.
\<close>

datatype sw_op = OpWrite bytes | OpLazyWrite bytes | OpFlush | OpReadFrom reader

fun sw_step :: "sw_op \<Rightarrow> shadowsocksWriter \<Rightarrow> shadowsocksWriter option" where
  "sw_step (OpWrite p) sw = map_option snd (Write p sw)"
| "sw_step (OpLazyWrite p) sw = map_option snd (LazyWrite p sw)"
| "sw_step OpFlush sw = map_option snd (Flush sw)"
| "sw_step (OpReadFrom r) sw = map_option snd (ReadFrom r sw)"

fun sw_run :: "sw_op list \<Rightarrow> shadowsocksWriter \<Rightarrow> shadowsocksWriter option" where
  "sw_run [] sw = Some sw"
| "sw_run (x # xs) sw = (case sw_step x sw of None \<Rightarrow> None | Some sw' \<Rightarrow> sw_run xs sw')"

section \<open>stream.go: the reader\<close>

record chunkReader =
  cr_reader :: reader
  cr_ssCipher :: Cipher
  cr_aead :: "aead option"
  cr_counter :: bytes
  cr_buf :: bytes

definition cr_init :: "chunkReader \<Rightarrow> error option \<times> chunkReader" where
  "cr_init cr =
     (if cr_aead cr = None then
        (case ReadFull (cr_reader cr) (SaltSize (cr_ssCipher cr)) of
           ((salt, Some err), r) \<Rightarrow>
             (Some (if err \<noteq> EOF \<and> err \<noteq> ErrUnexpectedEOF
                    then Errorf ''failed to read salt'' err else err),
              cr\<lparr>cr_reader := r\<rparr>)
         | ((salt, None), r) \<Rightarrow>
             (case Decrypter (cr_ssCipher cr) salt of
                Inl err \<Rightarrow> (Some (Errorf ''failed to create AEAD'' err), cr\<lparr>cr_reader := r\<rparr>)
              | Inr a \<Rightarrow>
                  (None, cr\<lparr>cr_reader := r, cr_aead := Some a,
                            cr_counter := replicate (NonceSize a) 0,
                            cr_buf := replicate (payloadSizeMask + Overhead a) 0\<rparr>)))
      else (None, cr))"

text \<open>
  \<open>readMessage n\<close> is \<open>cr.readMessage(cr.buf[:n])\<close>. \<open>ReadFull\<close> stores what it
  read at the start of \<open>cr.buf\<close>, and \<open>Open(buf[:0], ...)\<close> stores the plaintext
  over it when it fits in \<open>cr.buf\<close>. What \<open>Open\<close> leaves in the buffer when it
  fails is never read again; the model leaves the ciphertext there. \<open>None\<close> is a
  panic.
\<close>

definition readMessage :: "nat \<Rightarrow> chunkReader \<Rightarrow> (error option \<times> chunkReader) option" where
  "readMessage n cr =
     (case ReadFull (cr_reader cr) n of
        ((d, Some err), r) \<Rightarrow>
          Some (Some err, cr\<lparr>cr_reader := r, cr_buf := blit (cr_buf cr) 0 d\<rparr>)
      | ((d, None), r) \<Rightarrow>
          (case cr_aead cr of
             None \<Rightarrow> None
           | Some a \<Rightarrow>
               (let cr1 = cr\<lparr>cr_reader := r, cr_buf := blit (cr_buf cr) 0 d\<rparr>;
                    res = Open a (cr_counter cr1) (slice (cr_buf cr1) 0 n);
                    cr2 = cr1\<lparr>cr_counter := increment (cr_counter cr1)\<rparr>
                in case res of
                     Inl err \<Rightarrow> Some (Some (Errorf ''failed to decrypt'' err), cr2)
                   | Inr pt \<Rightarrow>
                       Some (None, cr2\<lparr>cr_buf := (if length pt \<le> length (cr_buf cr2)
                                                   then blit (cr_buf cr2) 0 pt
                                                   else cr_buf cr2)\<rparr>))))"

text \<open>
  \<open>ReadChunk\<close>. The payload it returns is a slice of \<open>cr.buf\<close>, given by its
  bounds: \<open>Inr (lo, hi)\<close> is \<open>cr.buf[lo:hi]\<close>.
\<close>

definition ReadChunk :: "chunkReader \<Rightarrow> ((error + nat \<times> nat) \<times> chunkReader) option" where
  "ReadChunk cr =
     (case cr_init cr of
        (Some err, cr0) \<Rightarrow> Some (Inl err, cr0)
      | (None, cr0) \<Rightarrow>
          (case cr_aead cr0 of
             None \<Rightarrow> None
           | Some a \<Rightarrow>
               if length (cr_buf cr0) < 2 + Overhead a then None
               else
                 (case readMessage (2 + Overhead a) cr0 of
                    None \<Rightarrow> None
                  | Some (Some err, cr1) \<Rightarrow>
                      Some (Inl (if err \<noteq> EOF \<and> err \<noteq> ErrUnexpectedEOF
                                 then Errorf ''failed to read payload size'' err else err), cr1)
                  | Some (None, cr1) \<Rightarrow>
                      (let size = unat (Uint16 (slice (cr_buf cr1) 0 (2 + Overhead a))
                                          AND of_nat payloadSizeMask);
                           sizeWithTag = size + Overhead a
                       in if length (cr_buf cr1) < sizeWithTag then Some (Inl ErrShortBuffer, cr1)
                          else
                            (case readMessage sizeWithTag cr1 of
                               None \<Rightarrow> None
                             | Some (Some err, cr2) \<Rightarrow>
                                 Some (Inl (if err = EOF then ErrUnexpectedEOF else err), cr2)
                             | Some (None, cr2) \<Rightarrow> Some (Inr (0, size), cr2))))))"

text \<open>
  \<open>readConverter\<close>: \<open>rc_leftover = (lo, hi)\<close> says that \<open>c.leftover\<close> is
  \<open>cr.buf[lo:hi]\<close> of its chunk reader; the nil slice is \<open>(0, 0)\<close>.
\<close>

record readConverter =
  rc_cr :: chunkReader
  rc_leftover :: "nat \<times> nat"

definition NewShadowsocksReader :: "reader \<Rightarrow> Cipher \<Rightarrow> readConverter" where
  "NewShadowsocksReader r ssCipher =
     \<lparr>rc_cr = \<lparr>cr_reader = r, cr_ssCipher = ssCipher, cr_aead = None, cr_counter = [],
                cr_buf = []\<rparr>,
      rc_leftover = (0, 0)\<rparr>"

definition leftover_bytes :: "readConverter \<Rightarrow> bytes" where
  "leftover_bytes c = slice (cr_buf (rc_cr c)) (fst (rc_leftover c)) (snd (rc_leftover c))"

definition leftover_len :: "readConverter \<Rightarrow> nat" where
  "leftover_len c = length (leftover_bytes c)"

definition ensureLeftover :: "readConverter \<Rightarrow> (error option \<times> readConverter) option" where
  "ensureLeftover c =
     (if 0 < leftover_len c then Some (None, c)
      else (case ReadChunk (rc_cr c) of
              None \<Rightarrow> None
            | Some (Inl err, cr) \<Rightarrow> Some (Some err, c\<lparr>rc_cr := cr\<rparr>)
            | Some (Inr payload, cr) \<Rightarrow> Some (None, c\<lparr>rc_cr := cr, rc_leftover := payload\<rparr>)))"

text \<open>\<open>readConverter.Read(b)\<close> with \<open>len(b) = n\<close>: the bytes copied into \<open>b\<close>.\<close>

definition readConverter_Read ::
  "nat \<Rightarrow> readConverter \<Rightarrow> ((bytes \<times> error option) \<times> readConverter) option" where
  "readConverter_Read n c =
     (case ensureLeftover c of
        None \<Rightarrow> None
      | Some (Some err, c1) \<Rightarrow> Some (([], Some err), c1)
      | Some (None, c1) \<Rightarrow>
          (let k = min n (leftover_len c1)
           in Some ((take k (leftover_bytes c1), None),
                    c1\<lparr>rc_leftover := (fst (rc_leftover c1) + k, snd (rc_leftover c1))\<rparr>)))"

text \<open>
  One pass through the loop of \<open>WriteTo\<close>: \<open>Inl\<close> is the return with the writer's
  final state, \<open>Inr\<close> the state for the next pass.
\<close>

type_synonym WriteTo_result = "(nat \<times> error option) \<times> readConverter \<times> sink"

definition WriteTo_iter ::
  "readConverter \<Rightarrow> sink \<Rightarrow> nat \<Rightarrow> (WriteTo_result + (readConverter \<times> sink \<times> nat)) option" where
  "WriteTo_iter c w written' =
     (case ensureLeftover c of
        None \<Rightarrow> None
      | Some (Some err, c1) \<Rightarrow>
          Some (Inl ((written', if err = EOF then None else Some err), c1, w))
      | Some (None, c1) \<Rightarrow>
          (case sink_Write (leftover_bytes c1) w of
             ((n, err), w1) \<Rightarrow>
               (let written1 = written' + n;
                    c2 = c1\<lparr>rc_leftover := (fst (rc_leftover c1) + n, snd (rc_leftover c1))\<rparr>
                in case err of
                     Some e \<Rightarrow> Some (Inl ((written1, Some e), c2, w1))
                   | None \<Rightarrow> Some (Inr (c2, w1, written1)))))"

lemma ReadFull_loop_done:
  "m \<le> length acc \<Longrightarrow> ReadFull_loop r m acc = ((acc, None), r)"
  by (subst ReadFull_loop.simps) simp

lemma ReadFull_loop_more:
  "length acc < m \<Longrightarrow> Read r (m - length acc) = ((d, None), r')
     \<Longrightarrow> ReadFull_loop r m acc = ReadFull_loop r' m (acc @ d)"
  by (subst ReadFull_loop.simps) simp

lemma ReadFull_loop_err:
  "length acc < m \<Longrightarrow> Read r (m - length acc) = ((d, Some err), r')
     \<Longrightarrow> ReadFull_loop r m acc =
         (if m \<le> length (acc @ d) then ((acc @ d, None), r')
          else if 0 < length (acc @ d) \<and> err = EOF then ((acc @ d, Some ErrUnexpectedEOF), r')
          else ((acc @ d, Some err), r'))"
  by (subst ReadFull_loop.simps) simp

lemma ReadFull_loop_size_le:
  "ReadFull_loop r m acc = (res, r') \<Longrightarrow> reader_size r' \<le> reader_size r"
proof (induction r m acc rule: ReadFull_loop.induct)
  case (1 r m acc)
  show ?case
  proof (cases "length acc < m")
    case False
    with "1.prems" show ?thesis by (simp add: ReadFull_loop_done)
  next
    case True
    obtain d e r1 where rd: "Read r (m - length acc) = ((d, e), r1)"
      by (metis surj_pair)
    have le: "reader_size r1 \<le> reader_size r" using rd by (rule Read_size_le)
    show ?thesis
    proof (cases e)
      case None
      with "1.prems" True rd have "ReadFull_loop r1 m (acc @ d) = (res, r')"
        by (simp add: ReadFull_loop_more)
      from "1.IH" [OF True rd [symmetric] refl None this] le show ?thesis by simp
    next
      case (Some err)
      with "1.prems" True rd have "r' = r1"
        by (auto simp: ReadFull_loop_err split: if_splits)
      with le show ?thesis by simp
    qed
  qed
qed

lemma ReadFull_loop_size_less:
  "ReadFull_loop r m acc = ((d, None), r') \<Longrightarrow> length acc < m
     \<Longrightarrow> reader_size r' < reader_size r"
proof -
  assume a: "ReadFull_loop r m acc = ((d, None), r')" and lt: "length acc < m"
  obtain d1 e r1 where rd: "Read r (m - length acc) = ((d1, e), r1)"
    by (metis surj_pair)
  show ?thesis
  proof (cases e)
    case None
    from lt have "0 < m - length acc" by simp
    from Read_size_less [OF rd [unfolded None] this]
    have "reader_size r1 < reader_size r" .
    moreover from a lt rd None have "ReadFull_loop r1 m (acc @ d1) = ((d, None), r')"
      by (simp add: ReadFull_loop_more)
    from ReadFull_loop_size_le [OF this] have "reader_size r' \<le> reader_size r1" .
    ultimately show ?thesis by simp
  next
    case (Some err)
    with a lt rd have "r' = r1" and "m \<le> length (acc @ d1)"
      by (auto simp: ReadFull_loop_err split: if_splits)
    with lt have "d1 \<noteq> []" by auto
    from Read_data_size_less [OF rd this] \<open>r' = r1\<close> show ?thesis by simp
  qed
qed

lemma ReadFull_size_le: "ReadFull r m = (res, r') \<Longrightarrow> reader_size r' \<le> reader_size r"
  unfolding ReadFull_def by (rule ReadFull_loop_size_le)

lemma ReadFull_size_less:
  "ReadFull r m = ((d, None), r') \<Longrightarrow> 0 < m \<Longrightarrow> reader_size r' < reader_size r"
  unfolding ReadFull_def by (rule ReadFull_loop_size_less) auto

lemma cr_init_size:
  "cr_init cr = (e, cr') \<Longrightarrow> reader_size (cr_reader cr') \<le> reader_size (cr_reader cr)"
  by (auto simp: cr_init_def split: if_splits prod.splits option.splits sum.splits
      dest: ReadFull_size_le)

lemma readMessage_size_le:
  "readMessage n cr = Some (e, cr') \<Longrightarrow> reader_size (cr_reader cr') \<le> reader_size (cr_reader cr)"
  by (auto simp: readMessage_def Let_def split: if_splits prod.splits option.splits sum.splits
      dest: ReadFull_size_le)

lemma readMessage_size_less:
  "readMessage n cr = Some (None, cr') \<Longrightarrow> 0 < n
     \<Longrightarrow> reader_size (cr_reader cr') < reader_size (cr_reader cr)"
  by (auto simp: readMessage_def Let_def split: if_splits prod.splits option.splits sum.splits
      dest: ReadFull_size_less)

lemma ReadChunk_size_less:
  assumes "ReadChunk cr = Some (Inr payload, cr')"
  shows "reader_size (cr_reader cr') < reader_size (cr_reader cr)"
proof -
  from assms obtain cr0 a cr1 where
    i: "cr_init cr = (None, cr0)" and a: "cr_aead cr0 = Some a"
    and m1: "readMessage (2 + Overhead a) cr0 = Some (None, cr1)"
    and m2: "readMessage (unat (Uint16 (slice (cr_buf cr1) 0 (2 + Overhead a))
                                          AND of_nat payloadSizeMask) + Overhead a) cr1 = Some (None, cr')"
    by (auto simp: ReadChunk_def Let_def split: prod.splits option.splits if_splits)
  from cr_init_size [OF i] readMessage_size_less [OF m1] readMessage_size_le [OF m2]
  show ?thesis by simp
qed

lemma WriteTo_iter_decreases:
  assumes "WriteTo_iter c w written' = Some (Inr (c', w', written''))"
  shows "reader_size (cr_reader (rc_cr c')) < reader_size (cr_reader (rc_cr c))
         \<or> (reader_size (cr_reader (rc_cr c')) = reader_size (cr_reader (rc_cr c))
             \<and> leftover_len c' < leftover_len c)"
proof -
  from assms obtain c1 n w1 where
    e: "ensureLeftover c = Some (None, c1)"
    and wr: "sink_Write (leftover_bytes c1) w = ((n, None), w1)"
    and c': "c' = c1\<lparr>rc_leftover := (fst (rc_leftover c1) + n, snd (rc_leftover c1))\<rparr>"
    by (auto simp: WriteTo_iter_def Let_def split: option.splits prod.splits)
  from wr have n: "n = length (leftover_bytes c1)"
    by (auto simp: sink_Write_def split: list.splits option.splits)
  have z: "leftover_len c' = 0"
    by (simp add: c' n leftover_len_def leftover_bytes_def slice_def) arith
  show ?thesis
  proof (cases "0 < leftover_len c")
    case True
    with e have "c1 = c" by (simp add: ensureLeftover_def)
    with True z c' show ?thesis by simp
  next
    case False
    with e obtain payload cr where "ReadChunk (rc_cr c) = Some (Inr payload, cr)"
      and "c1 = c\<lparr>rc_cr := cr, rc_leftover := payload\<rparr>"
      by (auto simp: ensureLeftover_def split: option.splits prod.splits sum.splits)
    with ReadChunk_size_less [of "rc_cr c" payload cr] c' show ?thesis by simp
  qed
qed

function WriteTo_loop :: "readConverter \<Rightarrow> sink \<Rightarrow> nat \<Rightarrow> WriteTo_result option" where
  "WriteTo_loop c w written' =
     (case WriteTo_iter c w written' of
        None \<Rightarrow> None
      | Some (Inl res) \<Rightarrow> Some res
      | Some (Inr (c', w', written'')) \<Rightarrow> WriteTo_loop c' w' written'')"
  by pat_completeness auto
termination
proof (relation "inv_image (less_than <*lex*> less_than)
                   (\<lambda>(c, w, written'). (reader_size (cr_reader (rc_cr c)), leftover_len c))",
       goal_cases)
  case 1
  show ?case by (intro wf_inv_image wf_lex_prod wf_less_than)
next
  case (2 c w written' x2 b x y xa ya)
  then have "WriteTo_iter c w written' = Some (Inr (x, xa, ya))"
    by simp
  from WriteTo_iter_decreases [OF this] show ?case by auto
qed

declare WriteTo_loop.simps [simp del]

definition WriteTo :: "sink \<Rightarrow> readConverter \<Rightarrow> WriteTo_result option" where
  "WriteTo w c = WriteTo_loop c w 0"

section \<open>Fixtures for the concrete runs\<close>

text \<open>
  A toy AEAD for the concrete runs: the ciphertext is the plaintext followed by a
  one-byte tag, the sum of the bytes of the salt, the nonce and the plaintext.
\<close>

definition testTag :: "bytes \<Rightarrow> bytes \<Rightarrow> bytes \<Rightarrow> byte" where
  "testTag salt n p = fold (+) (salt @ n @ p) 0"

definition testAEAD :: "bytes \<Rightarrow> aead" where
  "testAEAD salt =
     \<lparr>NonceSize = 12, Overhead = 1,
      Seal = (\<lambda>n p. p @ [testTag salt n p]),
      Open = (\<lambda>n c. if c \<noteq> [] \<and> last c = testTag salt n (butlast c) then Inr (butlast c)
                     else Inl (Err ''cipher: message authentication failed''))\<rparr>"

definition testCipher :: Cipher where
  "testCipher =
     \<lparr>SaltSize = 2, Encrypter = (\<lambda>salt. Inr (testAEAD salt)),
      Decrypter = (\<lambda>salt. Inr (testAEAD salt))\<rparr>"

definition testRand :: reader where
  "testRand = [([7, 9], None)]"

definition testSink :: sink where
  "testSink = \<lparr>written = [], results = []\<rparr>"

definition testWriter :: shadowsocksWriter where
  "testWriter = NewShadowsocksWriter testSink testCipher testRand"

section \<open>The key registry: snapshots and affinity\<close>

lemma snapshot_loop_filter:
  "snapshot_loop cl ip es xs ys =
     (xs @ filter (\<lambda>e. matchesIP cl e ip) es, ys @ filter (\<lambda>e. \<not> matchesIP cl e ip) es)"
  by (induction es arbitrary: xs ys) auto

lemma SafeSnapshot_filter:
  "SafeSnapshotForClientIP ip cl =
     filter (\<lambda>e. matchesIP cl e ip) (list cl) @ filter (\<lambda>e. \<not> matchesIP cl e ip) (list cl)"
  by (simp add: SafeSnapshotForClientIP_def snapshot_loop_filter)

text \<open>
  The linked list never holds an element twice, and every element it holds has been
  allocated.
\<close>

definition cl_inv :: "cipherList \<Rightarrow> bool" where
  "cl_inv cl = (distinct (list cl) \<and> (\<forall>e \<in> set (list cl). e < allocated cl))"

lemma set_MoveToFront: "set (MoveToFront e l) = set l"
  by (auto simp: MoveToFront_def)

lemma distinct_MoveToFront: "distinct l \<Longrightarrow> distinct (MoveToFront e l)"
  by (auto simp: MoveToFront_def distinct_removeAll)

lemma hd_MoveToFront: "e \<in> set l \<Longrightarrow> hd (MoveToFront e l) = e"
  by (cases l) (auto simp: MoveToFront_def)

lemma cl_inv_step: "cl_inv cl \<Longrightarrow> cl_inv (cl_step cl x)"
  by (cases x) (auto simp: cl_inv_def PushBack_def Let_def SafeMarkUsedByClientIP_def
      set_MoveToFront distinct_MoveToFront)

lemma cl_inv_foldl: "cl_inv cl \<Longrightarrow> cl_inv (foldl cl_step cl ops)"
  by (induction ops arbitrary: cl) (auto simp: cl_inv_step)

lemma cl_inv_run: "cl_inv (cl_run ops)"
  unfolding cl_run_def by (rule cl_inv_foldl) (simp add: cl_inv_def NewCipherList_def)

lemma IP_Equal_refl: "IP_Equal ip ip"
  by (simp add: IP_Equal_def)

lemma cl_run_two_pushes:
  "list (cl_run [OpPushBack i c, OpPushBack j c']) = [0, 1]"
  "lastClientIP (Value (cl_run [OpPushBack i c, OpPushBack j c']) e) = None"
  by (simp_all add: cl_run_def PushBack_def NewCipherList_def Let_def)

text \<open>
  C9. In every registry state, the snapshot for a non-nil client IP is the elements
  whose \<open>lastClientIP\<close> is \<open>Equal\<close> to it, in list order, followed by the other
  elements in list order; it holds every element of the list once; and after
  \<open>SafeMarkUsedByClientIP e ip\<close> on an element of the list, the snapshot for \<open>ip\<close>
  starts with \<open>e\<close>.
\<close>

theorem snapshot_affinity_order:
  "SafeSnapshotForClientIP (Some ip) (cl_run ops) =
      filter (\<lambda>e. IP_Equal (Some ip) (lastClientIP (Value (cl_run ops) e))) (list (cl_run ops)) @
      filter (\<lambda>e. \<not> IP_Equal (Some ip) (lastClientIP (Value (cl_run ops) e))) (list (cl_run ops))
   \<and> distinct (list (cl_run ops))
   \<and> distinct (SafeSnapshotForClientIP (Some ip) (cl_run ops))
   \<and> set (SafeSnapshotForClientIP (Some ip) (cl_run ops)) = set (list (cl_run ops))
   \<and> (e \<in> set (list (cl_run ops)) \<longrightarrow>
        hd (SafeSnapshotForClientIP (Some ip) (SafeMarkUsedByClientIP e (Some ip) (cl_run ops))) = e)"
proof -
  let ?cl = "cl_run ops"
  have d: "distinct (list ?cl)"
    using cl_inv_run [of ops] by (simp add: cl_inv_def)
  have f: "SafeSnapshotForClientIP (Some ip) ?cl =
      filter (\<lambda>e. IP_Equal (Some ip) (lastClientIP (Value ?cl e))) (list ?cl) @
      filter (\<lambda>e. \<not> IP_Equal (Some ip) (lastClientIP (Value ?cl e))) (list ?cl)"
    by (simp add: SafeSnapshot_filter matchesIP_def)
  have d2: "distinct (SafeSnapshotForClientIP (Some ip) ?cl)"
    unfolding f using d by auto
  have s: "set (SafeSnapshotForClientIP (Some ip) ?cl) = set (list ?cl)"
    unfolding f by auto
  have h: "hd (SafeSnapshotForClientIP (Some ip) (SafeMarkUsedByClientIP e (Some ip) ?cl)) = e"
    if mem: "e \<in> set (list ?cl)"
  proof -
    obtain r where r: "MoveToFront e (list ?cl) = e # r"
      using mem hd_MoveToFront [OF mem] set_MoveToFront [of e "list ?cl"]
      by (cases "MoveToFront e (list ?cl)") auto
    show ?thesis
      by (simp add: SafeSnapshot_filter SafeMarkUsedByClientIP_def Let_def r matchesIP_def
          IP_Equal_refl)
  qed
  show ?thesis using d f d2 s h by blast
qed

theorem snapshot_affinity_order_witness:
  "(1::nat) \<in> set (list (cl_run [OpPushBack ''key-0'' testCipher, OpPushBack ''key-1'' testCipher]))
   \<and> SafeSnapshotForClientIP (Some [10, 0, 0, 1])
        (cl_run [OpPushBack ''key-0'' testCipher, OpPushBack ''key-1'' testCipher]) = [0, 1]
   \<and> hd (SafeSnapshotForClientIP (Some [10, 0, 0, 1])
         (SafeMarkUsedByClientIP 1 (Some [10, 0, 0, 1])
            (cl_run [OpPushBack ''key-0'' testCipher, OpPushBack ''key-1'' testCipher]))) = 1"
proof -
  let ?ops = "[OpPushBack ''key-0'' testCipher, OpPushBack ''key-1'' testCipher]"
  have m: "(1::nat) \<in> set (list (cl_run ?ops))"
    by (simp add: cl_run_two_pushes)
  have s: "SafeSnapshotForClientIP (Some [10, 0, 0, 1]) (cl_run ?ops) = [0, 1]"
    by (simp add: SafeSnapshot_filter matchesIP_def cl_run_two_pushes IP_Equal_def ip_bytes_def)
  from snapshot_affinity_order [of "[10, 0, 0, 1]" ?ops 1] m
  have "hd (SafeSnapshotForClientIP (Some [10, 0, 0, 1])
         (SafeMarkUsedByClientIP 1 (Some [10, 0, 0, 1]) (cl_run ?ops))) = 1"
    by blast
  with m s show ?thesis by simp
qed

text \<open>
  C10. In every registry state, the snapshot for the nil client IP is the list in
  its current order, each element once: nil matches no element, also not one whose
  \<open>lastClientIP\<close> is still nil.
\<close>

theorem snapshot_nil_keeps_order:
  "SafeSnapshotForClientIP None (cl_run ops) = list (cl_run ops)
   \<and> distinct (SafeSnapshotForClientIP None (cl_run ops))
   \<and> \<not> matchesIP (cl_run ops) e None"
  using cl_inv_run [of ops]
  by (simp add: SafeSnapshot_filter matchesIP_def cl_inv_def)

theorem snapshot_nil_keeps_order_witness:
  "SafeSnapshotForClientIP None
     (cl_run [OpPushBack ''key-0'' testCipher, OpPushBack ''key-1'' testCipher,
              OpMarkUsed 1 (Some [10, 0, 0, 1])]) = [1, 0]
   \<and> lastClientIP (Value (cl_run [OpPushBack ''key-0'' testCipher, OpPushBack ''key-1'' testCipher,
              OpMarkUsed 1 (Some [10, 0, 0, 1])]) 0) = None"
  using snapshot_nil_keeps_order [of "[OpPushBack ''key-0'' testCipher, OpPushBack ''key-1'' testCipher,
              OpMarkUsed 1 (Some [10, 0, 0, 1])]" 0]
  by (simp add: cl_run_def PushBack_def NewCipherList_def Let_def SafeMarkUsedByClientIP_def
      MoveToFront_def)

section \<open>Slices and counters\<close>

lemma length_blit: "off + length d \<le> length buf \<Longrightarrow> length (blit buf off d) = length buf"
  by (simp add: blit_def)

lemma length_slice: "hi \<le> length buf \<Longrightarrow> length (slice buf lo hi) = hi - lo"
  by (simp add: slice_def)

lemma slice_blit_same:
  "off + length d \<le> length buf \<Longrightarrow> hi = off + length d \<Longrightarrow> slice (blit buf off d) off hi = d"
  by (simp add: slice_def blit_def)

lemma slice_blit_before:
  assumes "hi \<le> off" "off \<le> length buf"
  shows "slice (blit buf off d) lo hi = slice buf lo hi"
proof (cases "lo < hi")
  case False
  then show ?thesis by (simp add: slice_def)
next
  case True
  with assms have "take (hi - lo) (drop lo (take off buf @ d @ drop (off + length d) buf))
      = take (hi - lo) (drop lo (take off buf))"
    by simp
  also have "\<dots> = take (hi - lo) (take (off - lo) (drop lo buf))"
    by (simp add: drop_take)
  also have "\<dots> = take (hi - lo) (drop lo buf)"
    using assms by (simp add: min_def)
  finally show ?thesis by (simp add: slice_def blit_def)
qed

lemma slice_blit_after:
  "off + length d \<le> lo \<Longrightarrow> off + length d \<le> length buf
     \<Longrightarrow> slice (blit buf off d) lo hi = slice buf lo hi"
  by (simp add: slice_def blit_def)

lemma slice_split:
  assumes "lo \<le> mid" "mid \<le> hi"
  shows "slice buf lo hi = slice buf lo mid @ slice buf mid hi"
proof -
  from assms have "hi - lo = (mid - lo) + (hi - mid)" by simp
  then have "take (hi - lo) (drop lo buf)
      = take (mid - lo) (drop lo buf) @ take (hi - mid) (drop (mid - lo) (drop lo buf))"
    by (simp only: take_add)
  with assms show ?thesis by (simp add: slice_def)
qed

lemma slice_blit_extend:
  assumes "lo \<le> off" "off + length d \<le> length buf"
  shows "slice (blit buf off d) lo (off + length d) = slice buf lo off @ d"
proof -
  have "slice (blit buf off d) lo (off + length d)
      = slice (blit buf off d) lo off @ slice (blit buf off d) off (off + length d)"
    using assms by (intro slice_split) auto
  with assms show ?thesis by (simp add: slice_blit_before slice_blit_same)
qed

lemma take_blit: "n \<le> off \<Longrightarrow> off \<le> length buf \<Longrightarrow> take n (blit buf off d) = take n buf"
  by (simp add: blit_def)

lemma slice_0_take: "slice buf 0 n = take n buf"
  by (simp add: slice_def)

text \<open>The value of a little-endian counter.\<close>

fun le_val :: "bytes \<Rightarrow> nat" where
  "le_val [] = 0"
| "le_val (b # bs) = unat b + 256 * le_val bs"

lemma length_increment [simp]: "length (increment bs) = length bs"
  by (induction bs) auto

lemma le_val_bound: "le_val bs < 256 ^ length bs"
proof (induction bs)
  case Nil
  show ?case by simp
next
  case (Cons b bs)
  have "unat b < 256" using unsigned_less [of b, where 'a = nat] by simp
  with Cons show ?case by simp
qed

lemma unat_byte_lt: "unat (b :: byte) < 256"
  using unsigned_less [of b, where 'a = nat] by simp

lemma byte_succ: "unat ((b :: byte) + 1) = (unat b + 1) mod 256"
  by (simp add: unat_word_ariths)

lemma byte_succ_nonzero: "(b :: byte) + 1 \<noteq> 0 \<Longrightarrow> unat (b + 1) = unat b + 1"
proof -
  assume "b + 1 \<noteq> 0"
  then have "unat (b + 1) \<noteq> 0" by (simp add: unat_eq_0)
  then have "(unat b + 1) mod 256 \<noteq> 0" by (simp add: byte_succ)
  moreover have "unat b < 256" by (rule unat_byte_lt)
  ultimately have "unat b + 1 < 256"
    by (metis Suc_eq_plus1 Suc_lessI mod_self)
  then show ?thesis by (simp add: byte_succ)
qed

lemma byte_succ_zero: "(b :: byte) + 1 = 0 \<Longrightarrow> unat b = 255"
proof -
  assume "b + 1 = 0"
  then have "unat (b + 1) = 0" by simp
  then have "(unat b + 1) mod 256 = 0" by (simp add: byte_succ)
  moreover have "unat b < 256" by (rule unat_byte_lt)
  ultimately show ?thesis by presburger
qed

lemma le_val_increment: "le_val (increment bs) = (le_val bs + 1) mod 256 ^ length bs"
proof (induction bs)
  case Nil
  show ?case by simp
next
  case (Cons b bs)
  show ?case
  proof (cases "b + 1 = 0")
    case True
    have "le_val (increment (b # bs)) = 256 * ((le_val bs + 1) mod 256 ^ length bs)"
      using True Cons by simp
    also have "\<dots> = (256 * (le_val bs + 1)) mod (256 * 256 ^ length bs)"
      by (simp add: mult_mod_right)
    finally show ?thesis using byte_succ_zero [OF True] by (simp add: algebra_simps)
  next
    case False
    have u: "unat (b + 1) = unat b + 1" using False by (rule byte_succ_nonzero)
    have "unat (b + 1) < 256" by (rule unat_byte_lt)
    with u have "unat b + 1 < 256" by simp
    moreover have "le_val bs < 256 ^ length bs" by (rule le_val_bound)
    moreover have "256 * (le_val bs + 1) \<le> 256 * 256 ^ length bs"
      using le_val_bound [of bs] by (intro mult_le_mono2) simp
    ultimately have "unat b + 1 + 256 * le_val bs < 256 * 256 ^ length bs"
      by simp
    with False u show ?thesis by simp
  qed
qed

lemma isZero_le_val: "isZero bs \<longleftrightarrow> le_val bs = 0"
  by (induction bs) (auto simp: unat_eq_0)

lemma le_val_replicate [simp]: "le_val (replicate n 0) = 0"
  by (induction n) auto

section \<open>The writer: invariants\<close>

definition nonce :: "nat \<Rightarrow> nat \<Rightarrow> bytes" where
  "nonce N k = (increment ^^ k) (replicate N 0)"

lemma length_nonce [simp]: "length (nonce N k) = N"
  by (induction k) (simp_all add: nonce_def)

lemma nonce_Suc: "nonce N (Suc k) = increment (nonce N k)"
  by (simp add: nonce_def)

lemma nonce_0: "nonce N 0 = replicate N 0"
  by (simp add: nonce_def)

lemma le_val_nonce: "le_val (nonce N k) = k mod 256 ^ N"
proof (induction k)
  case 0
  show ?case by (simp add: nonce_0)
next
  case (Suc k)
  have "le_val (nonce N (Suc k)) = (le_val (nonce N k) + 1) mod 256 ^ N"
    by (simp add: nonce_Suc le_val_increment)
  also have "\<dots> = (k mod 256 ^ N + 1) mod 256 ^ N" by (simp add: Suc)
  also have "\<dots> = Suc k mod 256 ^ N" by (simp add: mod_Suc_eq)
  finally show ?case .
qed

fun pair_up :: "'a list \<Rightarrow> ('a \<times> 'a) list" where
  "pair_up (x # y # r) = (x, y) # pair_up r"
| "pair_up _ = []"

lemma pair_up_append:
  "even (length xs) \<Longrightarrow> pair_up (xs @ ys) = pair_up xs @ pair_up ys"
  by (induction xs rule: pair_up.induct) auto

lemma length_pair_up: "length (pair_up xs) = length xs div 2"
  by (induction xs rule: pair_up.induct) auto

definition aead_ok :: "aead \<Rightarrow> bool" where
  "aead_ok a = (\<forall>n p. length (Seal a n p) = length p + Overhead a)"

text \<open>The structure of the writer once \<open>init\<close> has succeeded.\<close>

definition sw_wf :: "aead \<Rightarrow> shadowsocksWriter \<Rightarrow> bool" where
  "sw_wf a sw =
     (sw_aead sw = Some a
      \<and> length (sw_buf sw)
          = SaltSize (sw_ssCipher sw) + (2 + Overhead a) + (payloadSizeMask + Overhead a)
      \<and> sw_pending sw \<le> payloadSizeMask
      \<and> sw_counter sw = nonce (NonceSize a) (length (sw_sealed sw)))"

definition log_ok :: "nat \<Rightarrow> (bytes \<times> bytes) list \<Rightarrow> bool" where
  "log_ok N sealed =
     (even (length sealed)
      \<and> map fst sealed = map (nonce N) [0..<length sealed]
      \<and> (\<forall>(x, y) \<in> set (pair_up (map snd sealed)).
            x = PutUint16 (of_nat (length y)) \<and> 0 < length y \<and> length y \<le> payloadSizeMask))"

lemma log_ok_append:
  assumes "log_ok N sealed" "0 < length y" "length y \<le> payloadSizeMask"
  shows "log_ok N (sealed @ [(nonce N (length sealed), PutUint16 (of_nat (length y))),
                              (increment (nonce N (length sealed)), y)])"
  using assms
  by (auto simp: log_ok_def pair_up_append nonce_Suc)

lemma encryptBlock_effect:
  assumes "sw_aead sw = Some a"
  shows "encryptBlock off n sw =
     Some (length (Seal a (sw_counter sw) (slice (sw_buf sw) off (off + n))),
       sw\<lparr>sw_buf := (if off + length (Seal a (sw_counter sw) (slice (sw_buf sw) off (off + n)))
                            \<le> length (sw_buf sw)
                        then blit (sw_buf sw) off (Seal a (sw_counter sw) (slice (sw_buf sw) off (off + n)))
                        else sw_buf sw),
          sw_counter := increment (sw_counter sw),
          sw_sealed := sw_sealed sw @ [(sw_counter sw, slice (sw_buf sw) off (off + n))]\<rparr>)"
  using assms by (simp add: encryptBlock_def Let_def)

lemma encryptBlock_fields:
  assumes "encryptBlock off n sw = Some (k, sw')"
  shows "sw_aead sw' = sw_aead sw" "sw_ssCipher sw' = sw_ssCipher sw" "sw_flush sw' = sw_flush sw"
    "sw_pending sw' = sw_pending sw" "sw_rand sw' = sw_rand sw" "sw_writer sw' = sw_writer sw"
    "length (sw_buf sw') = length (sw_buf sw)"
    "sw_counter sw' = increment (sw_counter sw)"
    "sw_sealed sw' = sw_sealed sw @ [(sw_counter sw, slice (sw_buf sw) off (off + n))]"
    "sw_aead sw \<noteq> None"
    "take off (sw_buf sw') = take off (sw_buf sw)"
  using assms
  by (auto simp: encryptBlock_def Let_def length_blit blit_def split: option.splits)


lemma sink_Write_written: "sink_Write p w = (res, w') \<Longrightarrow> written w' = written w @ [p]"
  by (auto simp: sink_Write_def split: list.splits option.splits)

lemma PutUint16_length [simp]: "length (PutUint16 v) = 2"
  by (simp add: PutUint16_def)

lemma emitChunk_general:
  assumes em: "emitChunk ss sl start sw = Some (err, sw')"
    and a: "sw_aead sw = Some a"
    and l1: "ss + 2 \<le> length (sw_buf sw)"
    and l2: "ss + sl + sw_pending sw \<le> length (sw_buf sw)"
  shows "\<exists>p2 x. sw_sealed sw' = sw_sealed sw @
              [(sw_counter sw, PutUint16 (of_nat (sw_pending sw))), (increment (sw_counter sw), p2)]
          \<and> length p2 = sw_pending sw
          \<and> written (sw_writer sw') = written (sw_writer sw) @ [x]"
    and "sw_counter sw' = increment (increment (sw_counter sw))"
    and "length (sw_buf sw') = length (sw_buf sw)"
    and "sw_pending sw' = 0" and "sw_aead sw' = Some a" and "sw_ssCipher sw' = sw_ssCipher sw"
    and "sw_flush sw' = sw_flush sw" and "sw_rand sw' = sw_rand sw"
    and "take ss (sw_buf sw') = take ss (sw_buf sw)"
proof -
  let ?sw1 = "sw\<lparr>sw_buf := blit (sw_buf sw) ss (PutUint16 (of_nat (sw_pending sw)))\<rparr>"
  from em obtain k1 sw2 k2 sw3 n e w where
    e1: "encryptBlock ss 2 ?sw1 = Some (k1, sw2)"
    and e2: "encryptBlock (ss + sl) (sw_pending sw2) sw2 = Some (k2, sw3)"
    and wr: "sink_Write (slice (sw_buf sw3) start (ss + sl + k2)) (sw_writer sw3) = ((n, e), w)"
    and sw': "sw' = sw3\<lparr>sw_writer := w, sw_pending := 0\<rparr>"
    by (auto simp: emitChunk_def Let_def split: option.splits prod.splits if_splits)
  note f1 = encryptBlock_fields [OF e1]
  note f2 = encryptBlock_fields [OF e2]
  have len1: "length (sw_buf ?sw1) = length (sw_buf sw)"
    using l1 by (simp add: length_blit)
  have p1: "slice (sw_buf ?sw1) ss (ss + 2) = PutUint16 (of_nat (sw_pending sw))"
    using l1 by (simp add: slice_blit_same)
  have lenp2: "length (slice (sw_buf sw2) (ss + sl) (ss + sl + sw_pending sw2)) = sw_pending sw"
    using l2 f1 len1 by (simp add: length_slice)
  show "\<exists>p2 x. sw_sealed sw' = sw_sealed sw @
              [(sw_counter sw, PutUint16 (of_nat (sw_pending sw))), (increment (sw_counter sw), p2)]
          \<and> length p2 = sw_pending sw
          \<and> written (sw_writer sw') = written (sw_writer sw) @ [x]"
    using f1 f2 p1 lenp2 sink_Write_written [OF wr] by (simp add: sw')
  show "sw_counter sw' = increment (increment (sw_counter sw))"
    using f1 f2 by (simp add: sw')
  show "length (sw_buf sw') = length (sw_buf sw)"
    using f1 f2 len1 by (simp add: sw')
  show "sw_pending sw' = 0" by (simp add: sw')
  show "sw_aead sw' = Some a" using f1 f2 a by (simp add: sw')
  show "sw_ssCipher sw' = sw_ssCipher sw" using f1 f2 by (simp add: sw')
  show "sw_flush sw' = sw_flush sw" using f1 f2 by (simp add: sw')
  show "sw_rand sw' = sw_rand sw" using f1 f2 by (simp add: sw')
  have "take ss (sw_buf sw3) = take ss (sw_buf sw2)"
    using f2(11) by (metis le_add1 min.absorb1 take_take)
  also have "\<dots> = take ss (sw_buf ?sw1)" using f1(11) .
  also have "\<dots> = take ss (sw_buf sw)" using l1 by (simp add: take_blit)
  finally show "take ss (sw_buf sw') = take ss (sw_buf sw)" by (simp add: sw')
qed


lemma readFrom_loop_unfold:
  "readFrom_loop md ss sl r st wr sw =
     (case readFrom_iter md ss sl r st wr sw of
        None \<Rightarrow> None
      | Some (Inl res) \<Rightarrow> Some res
      | Some (Inr (r', st', wr', sw')) \<Rightarrow> readFrom_loop md ss sl r' st' wr' sw')"
  by (rule readFrom_loop.simps)

lemma readFrom_loop_rule:
  assumes "readFrom_loop md ss sl r st wr sw = Some res"
    and "I r st wr sw"
    and "\<And>r st wr sw r' st' wr' sw1. I r st wr sw
           \<Longrightarrow> readFrom_iter md ss sl r st wr sw = Some (Inr (r', st', wr', sw1)) \<Longrightarrow> I r' st' wr' sw1"
    and "\<And>r st wr sw res. I r st wr sw
           \<Longrightarrow> readFrom_iter md ss sl r st wr sw = Some (Inl res) \<Longrightarrow> Q res"
  shows "Q res"
  using assms
proof (induction md ss sl r st wr sw rule: readFrom_loop.induct)
  case (1 md ss sl r st wr sw)
  note step = "1.prems"(3) and fin = "1.prems"(4)
  show ?case
  proof (cases "readFrom_iter md ss sl r st wr sw")
    case None
    with "1.prems"(1) show ?thesis by (simp add: readFrom_loop_unfold)
  next
    case (Some x)
    show ?thesis
    proof (cases x)
      case (Inl res')
      with Some "1.prems"(1) have "res' = res" by (simp add: readFrom_loop_unfold)
      with Inl Some have "readFrom_iter md ss sl r st wr sw = Some (Inl res)" by simp
      from fin [OF "1.prems"(2) this] show ?thesis .
    next
      case (Inr b)
      obtain r' st' wr' sw1 where b: "b = (r', st', wr', sw1)" by (metis surj_pair)
      have it: "readFrom_iter md ss sl r st wr sw = Some (Inr (r', st', wr', sw1))"
        using Some Inr b by simp
      have lp: "readFrom_loop md ss sl r' st' wr' sw1 = Some res"
        using "1.prems"(1) it by (simp add: readFrom_loop_unfold)
      have i': "I r' st' wr' sw1" using step [OF "1.prems"(2) it] .
      show ?thesis
        apply (rule "1.IH" [OF Some Inr b [symmetric] refl refl lp i'])
         apply (rule step, assumption, assumption)
        apply (rule fin, assumption, assumption)
        done
    qed
  qed
qed

definition loop_inv :: "nat \<Rightarrow> aead \<Rightarrow> Cipher \<Rightarrow> shadowsocksWriter \<Rightarrow> bool" where
  "loop_inv n0 a c sw =
     (sw_wf a sw \<and> sw_ssCipher sw = c \<and> sw_pending sw < payloadSizeMask
      \<and> log_ok (NonceSize a) (sw_sealed sw)
      \<and> length (written (sw_writer sw)) = n0 + length (sw_sealed sw) div 2)"

definition sw_inv :: "nat \<Rightarrow> shadowsocksWriter \<Rightarrow> bool" where
  "sw_inv n0 sw =
     (case sw_aead sw of
        None \<Rightarrow> sw_pending sw = 0 \<and> sw_sealed sw = [] \<and> length (written (sw_writer sw)) = n0
      | Some a \<Rightarrow> loop_inv n0 a (sw_ssCipher sw) sw)"

lemma loop_end_cases:
  "loop_end err r st wr sw = Inl (res, sw') \<Longrightarrow> sw' = sw"
  "loop_end err r st wr sw = Inr (r', st', wr', sw') \<Longrightarrow> sw' = sw \<and> r' = r \<and> st' = st \<and> wr' = wr \<and> err = None"
  by (auto simp: loop_end_def split: option.splits if_splits)

lemma readFrom_iter_cases:
  assumes "readFrom_iter md ss sl r st wr sw = Some x"
  obtains (emit) d err r1 err' sw2 where
      "Read r (payloadSizeMask - sw_pending sw) = ((d, err), r1)"
      "sw_pending sw + length d = payloadSizeMask \<or> (md \<noteq> modeLazy \<and> 0 < sw_pending sw + length d)"
      "emitChunk ss sl st (sw\<lparr>sw_buf := blit (sw_buf sw) (ss + sl + sw_pending sw) d,
                               sw_pending := sw_pending sw + length d\<rparr>) = Some (err', sw2)"
      "loop_end err' r1 ss (wr + length d) sw2 = x"
      "sw_pending sw \<le> payloadSizeMask" "ss + sl + payloadSizeMask \<le> length (sw_buf sw)"
  | (keep) d err r1 where
      "Read r (payloadSizeMask - sw_pending sw) = ((d, err), r1)"
      "sw_pending sw + length d \<noteq> payloadSizeMask" "md = modeLazy \<or> sw_pending sw + length d = 0"
      "loop_end err r1 st (wr + length d)
             (sw\<lparr>sw_buf := blit (sw_buf sw) (ss + sl + sw_pending sw) d,
                 sw_pending := sw_pending sw + length d\<rparr>) = x"
      "sw_pending sw \<le> payloadSizeMask" "ss + sl + payloadSizeMask \<le> length (sw_buf sw)"
proof -
  obtain d err r1 where rd: "Read r (payloadSizeMask - sw_pending sw) = ((d, err), r1)"
    by (metis surj_pair)
  from assms have b: "sw_pending sw \<le> payloadSizeMask" "ss + sl + payloadSizeMask \<le> length (sw_buf sw)"
    by (auto simp: readFrom_iter_def split: if_splits)
  show ?thesis
  proof (cases "sw_pending sw + length d = payloadSizeMask \<or> (md \<noteq> modeLazy \<and> 0 < sw_pending sw + length d)")
    case True
    with assms rd b obtain err' sw2 where
      "emitChunk ss sl st (sw\<lparr>sw_buf := blit (sw_buf sw) (ss + sl + sw_pending sw) d,
                               sw_pending := sw_pending sw + length d\<rparr>) = Some (err', sw2)"
      "x = loop_end err' r1 ss (wr + length d) sw2"
      by (auto simp: readFrom_iter_def Let_def split: option.splits if_splits)
    with rd True b show ?thesis by (intro emit) auto
  next
    case False
    with assms rd b have "x = loop_end err r1 st (wr + length d)
             (sw\<lparr>sw_buf := blit (sw_buf sw) (ss + sl + sw_pending sw) d,
                 sw_pending := sw_pending sw + length d\<rparr>)"
      by (auto simp: readFrom_iter_def Let_def split: option.splits if_splits)
    with rd False b show ?thesis by (intro keep) auto
  qed
qed

lemma sw_wf_read:
  assumes "sw_wf a sw" "length d \<le> payloadSizeMask - sw_pending sw"
  shows "sw_wf a (sw\<lparr>sw_buf := blit (sw_buf sw) (SaltSize (sw_ssCipher sw) + (2 + Overhead a) + sw_pending sw) d,
                      sw_pending := sw_pending sw + length d\<rparr>)"
  using assms by (auto simp: sw_wf_def length_blit)

lemma readFrom_iter_inv:
  assumes inv: "loop_inv n0 a c sw"
    and it: "readFrom_iter md (SaltSize c) (2 + Overhead a) r st wr sw = Some x"
  shows "case x of Inl (res, sw') \<Rightarrow> loop_inv n0 a c sw'
                 | Inr (r', st', wr', sw') \<Rightarrow> loop_inv n0 a c sw'"
  using it
proof (cases rule: readFrom_iter_cases)
  case (emit d err r1 err' sw2)
  let ?sw1 = "sw\<lparr>sw_buf := blit (sw_buf sw) (SaltSize c + (2 + Overhead a) + sw_pending sw) d,
                    sw_pending := sw_pending sw + length d\<rparr>"
  from inv have wf: "sw_wf a sw" and c: "sw_ssCipher sw = c" and lg: "log_ok (NonceSize a) (sw_sealed sw)"
    and wl: "length (written (sw_writer sw)) = n0 + length (sw_sealed sw) div 2"
    by (simp_all add: loop_inv_def)
  have dl: "length d \<le> payloadSizeMask - sw_pending sw"
    using Read_length [OF emit(1)] .
  have wf1: "sw_wf a ?sw1" using sw_wf_read [OF wf dl] c by simp
  have pos: "0 < sw_pending ?sw1" using emit(2) by (auto simp: payloadSizeMask_def)
  have le: "sw_pending ?sw1 \<le> payloadSizeMask" using wf1 by (simp add: sw_wf_def)
  have a1: "sw_aead ?sw1 = Some a" using wf by (simp add: sw_wf_def)
  have l1: "SaltSize c + 2 \<le> length (sw_buf ?sw1)" using wf1 c by (simp add: sw_wf_def)
  have l2: "SaltSize c + (2 + Overhead a) + sw_pending ?sw1 \<le> length (sw_buf ?sw1)"
    using wf1 c le by (simp add: sw_wf_def)
  note g = emitChunk_general [OF emit(3) a1 l1 l2]
  from g(1) obtain p2 x' where
    sl: "sw_sealed sw2 = sw_sealed sw @
              [(sw_counter sw, PutUint16 (of_nat (sw_pending ?sw1))), (increment (sw_counter sw), p2)]"
    and pl: "length p2 = sw_pending ?sw1"
    and wr2: "written (sw_writer sw2) = written (sw_writer sw) @ [x']"
    by auto
  have cnt: "sw_counter sw = nonce (NonceSize a) (length (sw_sealed sw))"
    using wf by (simp add: sw_wf_def)
  have lg2: "log_ok (NonceSize a) (sw_sealed sw2)"
    unfolding sl cnt pl [symmetric]
    by (rule log_ok_append [OF lg]) (use pos le pl in auto)
  have ev: "even (length (sw_sealed sw))" using lg by (simp add: log_ok_def)
  have wf2: "sw_wf a sw2"
    using g wf1 c by (simp add: sw_wf_def sl cnt nonce_Suc payloadSizeMask_def)
  have "loop_inv n0 a c sw2"
    using wf2 lg2 g c wl wr2 ev by (simp add: loop_inv_def sl payloadSizeMask_def)
  then show ?thesis
    using emit(4) by (auto simp: loop_end_def split: option.splits if_splits)
next
  case (keep d err r1)
  let ?sw1 = "sw\<lparr>sw_buf := blit (sw_buf sw) (SaltSize c + (2 + Overhead a) + sw_pending sw) d,
                    sw_pending := sw_pending sw + length d\<rparr>"
  from inv have wf: "sw_wf a sw" and c: "sw_ssCipher sw = c"
    by (simp_all add: loop_inv_def)
  have dl: "length d \<le> payloadSizeMask - sw_pending sw"
    using Read_length [OF keep(1)] .
  have wf1: "sw_wf a ?sw1" using sw_wf_read [OF wf dl] c by simp
  have "sw_pending ?sw1 < payloadSizeMask" using keep(2) dl keep(5) by simp
  with wf1 inv have "loop_inv n0 a c ?sw1" by (simp add: loop_inv_def)
  then show ?thesis
    using keep(4) by (auto simp: loop_end_def split: option.splits if_splits)
qed


lemma ReadFull_loop_length:
  "ReadFull_loop r m acc = ((d, None), r') \<Longrightarrow> length acc \<le> m \<Longrightarrow> length d = m"
proof (induction r m acc rule: ReadFull_loop.induct)
  case (1 r m acc)
  show ?case
  proof (cases "length acc < m")
    case False
    with "1.prems" show ?thesis by (simp add: ReadFull_loop_done)
  next
    case True
    obtain d1 e r1 where rd: "Read r (m - length acc) = ((d1, e), r1)"
      by (metis surj_pair)
    have dl: "length d1 \<le> m - length acc" using Read_length [OF rd] .
    show ?thesis
    proof (cases e)
      case None
      with "1.prems" True rd have "ReadFull_loop r1 m (acc @ d1) = ((d, None), r')"
        by (simp add: ReadFull_loop_more)
      from "1.IH" [OF True rd [symmetric] refl None this] dl True show ?thesis by simp
    next
      case (Some err)
      with "1.prems" True rd dl show ?thesis
        by (auto simp: ReadFull_loop_err split: if_splits)
    qed
  qed
qed

lemma ReadFull_length: "ReadFull r m = ((d, None), r') \<Longrightarrow> length d = m"
  unfolding ReadFull_def by (rule ReadFull_loop_length) auto

lemma log_ok_Nil [simp]: "log_ok N []"
  by (simp add: log_ok_def)

lemma sw_init_inv:
  assumes "sw_inv n0 sw" "sw_init sw = (e, sw')"
  shows "sw_inv n0 sw'" 
    and "sw_flush sw' = sw_flush sw" and "sw_writer sw' = sw_writer sw"
    and "sw_ssCipher sw' = sw_ssCipher sw" and "sw_sealed sw' = sw_sealed sw"
    and "sw_pending sw' = sw_pending sw"
    and "e = None \<Longrightarrow> sw_aead sw' \<noteq> None"
    and "e \<noteq> None \<Longrightarrow> sw_aead sw' = None"
  using assms
  by (auto simp: sw_init_def sw_inv_def loop_inv_def sw_wf_def Let_def nonce_0 payloadSizeMask_def
      split: if_splits prod.splits option.splits sum.splits dest!: ReadFull_length)

lemma sw_inv_flush [simp]: "sw_inv n0 (sw\<lparr>sw_flush := b\<rparr>) = sw_inv n0 sw"
  by (simp add: sw_inv_def loop_inv_def sw_wf_def split: option.splits)

lemma readFrom_loop_inv:
  assumes "readFrom_loop md (SaltSize c) (2 + Overhead a) r st wr sw = Some (res, sw')"
    and "loop_inv n0 a c sw"
  shows "loop_inv n0 a c sw'"
proof -
  have "case (res, sw') of (res, sw') \<Rightarrow> loop_inv n0 a c sw'"
  proof (rule readFrom_loop_rule [OF assms(1), where I = "\<lambda>r st wr sw. loop_inv n0 a c sw"])
    show "loop_inv n0 a c sw" by fact
  next
    fix r st wr sw r' st' wr' sw1
    assume "loop_inv n0 a c sw"
      "readFrom_iter md (SaltSize c) (2 + Overhead a) r st wr sw = Some (Inr (r', st', wr', sw1))"
    from readFrom_iter_inv [OF this] show "loop_inv n0 a c sw1" by simp
  next
    fix r st wr sw res
    assume "loop_inv n0 a c sw"
      "readFrom_iter md (SaltSize c) (2 + Overhead a) r st wr sw = Some (Inl res)"
    from readFrom_iter_inv [OF this] show "case res of (res, sw') \<Rightarrow> loop_inv n0 a c sw'"
      by (simp split: prod.splits)
  qed
  then show ?thesis by simp
qed

lemma loop_inv_aead: "loop_inv n0 a c sw \<Longrightarrow> sw_aead sw = Some a \<and> sw_ssCipher sw = c"
  by (simp add: loop_inv_def sw_wf_def)

lemma sw_inv_loop_inv: "sw_aead sw = Some a \<Longrightarrow> sw_inv n0 sw = loop_inv n0 a (sw_ssCipher sw) sw"
  by (simp add: sw_inv_def)

lemma readFrom_inv:
  assumes "sw_inv n0 sw" "readFrom r md sw = Some (res, sw')"
  shows "sw_inv n0 sw'"
proof -
  obtain e sw0 where i: "sw_init sw = (e, sw0)" by (metis surj_pair)
  note ii = sw_init_inv [OF assms(1) i]
  show ?thesis
  proof (cases e)
    case (Some err)
    with assms(2) i have "sw' = sw0" by (simp add: readFrom_def)
    with ii show ?thesis by simp
  next
    case None
    let ?sw1 = "if md = modeNormal then sw0\<lparr>sw_flush := True\<rparr> else sw0"
    from ii(7) [OF None] obtain a where a: "sw_aead sw0 = Some a" by auto
    then have a1: "sw_aead ?sw1 = Some a" by simp
    have inv1: "loop_inv n0 a (sw_ssCipher ?sw1) ?sw1"
      using ii(1) a1 sw_inv_loop_inv [OF a1, of n0] by (simp split: if_splits)
    from assms(2) i None a1 obtain st where
      "readFrom_loop md (SaltSize (sw_ssCipher ?sw1)) (2 + Overhead a) r st 0 ?sw1 = Some (res, sw')"
      by (auto simp: readFrom_def Let_def split: if_splits)
    from readFrom_loop_inv [OF this inv1] have l: "loop_inv n0 a (sw_ssCipher ?sw1) sw'" .
    from loop_inv_aead [OF l] have "sw_aead sw' = Some a" "sw_ssCipher sw' = sw_ssCipher ?sw1" by auto
    with l show ?thesis by (simp add: sw_inv_def)
  qed
qed

lemma sw_step_inv:
  assumes "sw_inv n0 sw" "sw_step x sw = Some sw'"
  shows "sw_inv n0 sw'"
proof (cases x)
  case (OpWrite p)
  with assms(2) obtain res where "readFrom (byteWrapper p) modeNormal sw = Some (res, sw')"
    by (auto simp: Write_def write_mode_def)
  from readFrom_inv [OF assms(1) this] show ?thesis .
next
  case (OpLazyWrite p)
  with assms(2) obtain res where
    "readFrom (byteWrapper p) modeLazy (sw\<lparr>sw_flush := False\<rparr>) = Some (res, sw')"
    by (auto simp: LazyWrite_def write_mode_def)
  from readFrom_inv [OF _ this, of n0] assms(1) show ?thesis by simp
next
  case OpFlush
  show ?thesis
  proof (cases "sw_flush sw")
    case True
    with assms OpFlush show ?thesis by (simp add: Flush_def)
  next
    case False
    with assms(2) OpFlush obtain res sw1 where
      r: "readFrom (byteWrapper []) modeFlush sw = Some (res, sw1)" and "sw' = sw1\<lparr>sw_flush := True\<rparr>"
      by (auto simp: Flush_def write_mode_def split: option.splits)
    with readFrom_inv [OF assms(1) r] show ?thesis by simp
  qed
next
  case (OpReadFrom r)
  with assms(2) obtain res where "readFrom r modeNormal sw = Some (res, sw')"
    by (auto simp: ReadFrom_def)
  from readFrom_inv [OF assms(1) this] show ?thesis .
qed

lemma sw_run_inv: "sw_inv n0 sw \<Longrightarrow> sw_run ops sw = Some sw' \<Longrightarrow> sw_inv n0 sw'"
proof (induction ops arbitrary: sw)
  case Nil
  then show ?case by simp
next
  case (Cons x xs)
  then obtain sw1 where s: "sw_step x sw = Some sw1" and r: "sw_run xs sw1 = Some sw'"
    by (auto split: option.splits)
  from Cons.IH [OF sw_step_inv [OF Cons.prems(1) s] r] show ?case .
qed

lemma sw_inv_New: "sw_inv (length (written w)) (NewShadowsocksWriter w c rnd)"
  by (simp add: sw_inv_def NewShadowsocksWriter_def)

lemma Uint16_PutUint16 [simp]: "Uint16 (PutUint16 v) = v"
  unfolding Uint16_def PutUint16_def
  by (rule bit_eqI) (auto simp: bit_simps)

lemma of_nat_small_top_bits:
  assumes "L \<le> payloadSizeMask"
  shows "(of_nat L :: 16 word) AND 0xC000 = 0"
proof -
  have "L < 2 ^ 14" using assms by (simp add: payloadSizeMask_def)
  then have "take_bit 14 (of_nat L :: 16 word) = of_nat L"
    by (simp add: take_bit_of_nat take_bit_nat_eq_self)
  then have "(of_nat L :: 16 word) AND 0xC000 = (of_nat L AND mask 14) AND 0xC000"
    by (simp add: take_bit_eq_mask)
  also have "\<dots> = of_nat L AND (mask 14 AND 0xC000)"
    by (simp add: and.assoc)
  also have "(mask 14 AND 0xC000 :: 16 word) = 0" by (simp add: mask_eq_exp_minus_1)
  finally show ?thesis by simp
qed


lemma aead_ok_length: "aead_ok a \<Longrightarrow> length (Seal a n p) = length p + Overhead a"
  by (simp add: aead_ok_def)

lemma emitChunk_ok:
  assumes wf: "sw_wf a sw" and ok: "aead_ok a"
    and ss: "ss = SaltSize (sw_ssCipher sw)" and sl: "sl = 2 + Overhead a" and st: "start \<le> ss"
  shows "\<exists>err sw'. emitChunk ss sl start sw = Some (err, sw')
     \<and> sw_sealed sw' = sw_sealed sw @
           [(sw_counter sw, PutUint16 (of_nat (sw_pending sw))),
            (increment (sw_counter sw), slice (sw_buf sw) (ss + sl) (ss + sl + sw_pending sw))]
     \<and> written (sw_writer sw') = written (sw_writer sw) @
           [slice (sw_buf sw) start ss
            @ Seal a (sw_counter sw) (PutUint16 (of_nat (sw_pending sw)))
            @ Seal a (increment (sw_counter sw)) (slice (sw_buf sw) (ss + sl) (ss + sl + sw_pending sw))]"
proof -
  let ?v = "PutUint16 (of_nat (sw_pending sw))"
  let ?c = "sw_counter sw"
  let ?P0 = "ss + sl"
  let ?pb = "slice (sw_buf sw) ?P0 (?P0 + sw_pending sw)"
  let ?buf = "sw_buf sw"
  let ?buf1 = "blit ?buf ss ?v"
  let ?out1 = "Seal a ?c ?v"
  let ?buf2 = "blit ?buf1 ss ?out1"
  let ?out2 = "Seal a (increment ?c) ?pb"
  let ?buf3 = "blit ?buf2 ?P0 ?out2"
  from wf have a: "sw_aead sw = Some a"
    and len: "length ?buf = ss + sl + (payloadSizeMask + Overhead a)"
    and pend: "sw_pending sw \<le> payloadSizeMask"
    by (simp_all add: sw_wf_def ss sl)
  have len1: "length ?buf1 = length ?buf" using len sl by (simp add: length_blit)
  have lo1: "length ?out1 = sl" using ok sl by (simp add: aead_ok_length)
  have len2: "length ?buf2 = length ?buf" using len len1 lo1 by (simp add: length_blit)
  have lpb: "length ?pb = sw_pending sw" using len pend by (simp add: length_slice)
  have lo2: "length ?out2 = sw_pending sw + Overhead a" using ok lpb by (simp add: aead_ok_length)
  have len3: "length ?buf3 = length ?buf" using len len2 lo2 pend by (simp add: length_blit)
  have p1: "slice ?buf1 ss (ss + 2) = ?v" using len sl by (simp add: slice_blit_same)
  have p2: "slice ?buf2 ?P0 (?P0 + sw_pending sw) = ?pb"
  proof -
    have "slice ?buf2 ?P0 (?P0 + sw_pending sw) = slice ?buf1 ?P0 (?P0 + sw_pending sw)"
      using lo1 len len1 by (simp add: slice_blit_after)
    also have "\<dots> = ?pb" using len sl by (simp add: slice_blit_after)
    finally show ?thesis .
  qed
  have e1: "encryptBlock ss 2 (sw\<lparr>sw_buf := ?buf1\<rparr>) =
      Some (sl, sw\<lparr>sw_buf := ?buf2, sw_counter := increment ?c,
                     sw_sealed := sw_sealed sw @ [(?c, ?v)]\<rparr>)"
    using a p1 lo1 len len1 by (simp add: encryptBlock_def Let_def)
  have e2: "encryptBlock ?P0 (sw_pending sw)
        (sw\<lparr>sw_buf := ?buf2, sw_counter := increment ?c, sw_sealed := sw_sealed sw @ [(?c, ?v)]\<rparr>) =
      Some (sw_pending sw + Overhead a,
            sw\<lparr>sw_buf := ?buf3, sw_counter := increment (increment ?c),
               sw_sealed := sw_sealed sw @ [(?c, ?v), (increment ?c, ?pb)]\<rparr>)"
    using a p2 lo2 len len2 pend by (simp add: encryptBlock_def Let_def)
  have s1: "slice ?buf3 start ss = slice ?buf start ss"
  proof -
    have "slice ?buf3 start ss = slice ?buf2 start ss" using len len2 by (simp add: slice_blit_before)
    also have "\<dots> = slice ?buf1 start ss" using len len1 by (simp add: slice_blit_before)
    also have "\<dots> = slice ?buf start ss" using len by (simp add: slice_blit_before)
    finally show ?thesis .
  qed
  have s2: "slice ?buf3 ss ?P0 = ?out1"
  proof -
    have "slice ?buf3 ss ?P0 = slice ?buf2 ss ?P0" using len len2 by (simp add: slice_blit_before)
    also have "\<dots> = ?out1" using len len1 lo1 by (simp add: slice_blit_same)
    finally show ?thesis .
  qed
  have s3: "slice ?buf3 ?P0 (?P0 + (sw_pending sw + Overhead a)) = ?out2"
    using len len2 lo2 pend by (simp add: slice_blit_same)
  have w: "slice ?buf3 start (?P0 + (sw_pending sw + Overhead a))
      = slice ?buf start ss @ ?out1 @ ?out2"
  proof -
    have "slice ?buf3 start (?P0 + (sw_pending sw + Overhead a))
        = slice ?buf3 start ss @ slice ?buf3 ss (?P0 + (sw_pending sw + Overhead a))"
      using st by (intro slice_split) auto
    also have "slice ?buf3 ss (?P0 + (sw_pending sw + Overhead a))
        = slice ?buf3 ss ?P0 @ slice ?buf3 ?P0 (?P0 + (sw_pending sw + Overhead a))"
      by (intro slice_split) auto
    finally show ?thesis by (simp add: s1 s2 s3)
  qed
  obtain n err w' where sw: "sink_Write (slice ?buf start ss @ ?out1 @ ?out2) (sw_writer sw) = ((n, err), w')"
    by (metis surj_pair)
  have "emitChunk ss sl start sw = Some (err,
          sw\<lparr>sw_buf := ?buf3, sw_counter := increment (increment ?c),
             sw_sealed := sw_sealed sw @ [(?c, ?v), (increment ?c, ?pb)],
             sw_writer := w', sw_pending := 0\<rparr>)"
    unfolding emitChunk_def Let_def e1
    using e2 w sw len len3 pend by simp
  with sink_Write_written [OF sw] show ?thesis by simp
qed

lemma readFrom_loop_total:
  assumes "I r st wr sw"
    and "\<And>r st wr sw r' st' wr' sw1. I r st wr sw
           \<Longrightarrow> readFrom_iter md ss sl r st wr sw = Some (Inr (r', st', wr', sw1)) \<Longrightarrow> I r' st' wr' sw1"
    and "\<And>r st wr sw. I r st wr sw \<Longrightarrow> readFrom_iter md ss sl r st wr sw \<noteq> None"
  shows "\<exists>res. readFrom_loop md ss sl r st wr sw = Some res"
  using assms
proof (induction md ss sl r st wr sw rule: readFrom_loop.induct)
  case (1 md ss sl r st wr sw)
  note step = "1.prems"(2) and prog = "1.prems"(3)
  from prog [OF "1.prems"(1)] obtain x where Some: "readFrom_iter md ss sl r st wr sw = Some x"
    by auto
  show ?case
  proof (cases x)
    case (Inl res')
    with Some show ?thesis by (simp add: readFrom_loop_unfold)
  next
    case (Inr b)
    obtain r' st' wr' sw1 where b: "b = (r', st', wr', sw1)" by (metis surj_pair)
    have it: "readFrom_iter md ss sl r st wr sw = Some (Inr (r', st', wr', sw1))"
      using Some Inr b by simp
    have i': "I r' st' wr' sw1" using step [OF "1.prems"(1) it] .
    have "\<exists>res. readFrom_loop md ss sl r' st' wr' sw1 = Some res"
      apply (rule "1.IH" [OF Some Inr b [symmetric] refl refl i'])
       apply (rule step, assumption, assumption)
      apply (rule prog, assumption)
      done
    with it show ?thesis by (simp add: readFrom_loop_unfold)
  qed
qed

lemma readFrom_iter_start:
  assumes "readFrom_iter md ss sl r st wr sw = Some (Inr (r', st', wr', sw'))"
  shows "st' = st \<or> st' = ss"
  using assms
  by (cases rule: readFrom_iter_cases) (auto dest: loop_end_cases)

lemma readFrom_iter_total:
  assumes inv: "loop_inv n0 a c sw" and ok: "aead_ok a" and st: "st \<le> SaltSize c"
  shows "readFrom_iter md (SaltSize c) (2 + Overhead a) r st wr sw \<noteq> None"
proof -
  from inv have wf: "sw_wf a sw" and c: "sw_ssCipher sw = c"
    by (simp_all add: loop_inv_def)
  obtain d err r1 where rd: "Read r (payloadSizeMask - sw_pending sw) = ((d, err), r1)"
    by (metis surj_pair)
  let ?sw1 = "sw\<lparr>sw_buf := blit (sw_buf sw) (SaltSize c + (2 + Overhead a) + sw_pending sw) d,
                    sw_pending := sw_pending sw + length d\<rparr>"
  have wf1: "sw_wf a ?sw1" using sw_wf_read [OF wf Read_length [OF rd]] c by simp
  have ssq: "SaltSize c = SaltSize (sw_ssCipher ?sw1)" using c by simp
  from emitChunk_ok [OF wf1 ok ssq refl st]
  obtain err' sw' where "emitChunk (SaltSize c) (2 + Overhead a) st ?sw1 = Some (err', sw')"
    by auto
  with wf rd c show ?thesis
    by (auto simp: readFrom_iter_def Let_def sw_wf_def)
qed

definition seal_ok :: "shadowsocksWriter \<Rightarrow> bool" where
  "seal_ok sw = ((\<forall>salt a. Encrypter (sw_ssCipher sw) salt = Inr a \<longrightarrow> aead_ok a)
                 \<and> (\<forall>a. sw_aead sw = Some a \<longrightarrow> aead_ok a))"

lemma sw_init_seal_ok: "seal_ok sw \<Longrightarrow> sw_init sw = (e, sw') \<Longrightarrow> seal_ok sw'"
  by (auto simp: sw_init_def seal_ok_def Let_def split: if_splits prod.splits option.splits sum.splits)

lemma readFrom_iter_frame:
  assumes "readFrom_iter md ss sl r st wr sw = Some x" "sw_aead sw = Some a"
    "ss + 2 \<le> length (sw_buf sw)"
  shows "case x of Inl (res, sw') \<Rightarrow> sw_aead sw' = sw_aead sw \<and> sw_ssCipher sw' = sw_ssCipher sw
                       \<and> sw_flush sw' = sw_flush sw \<and> sw_rand sw' = sw_rand sw
                       \<and> length (sw_buf sw') = length (sw_buf sw)
                  | Inr (r', st', wr', sw') \<Rightarrow> sw_aead sw' = sw_aead sw \<and> sw_ssCipher sw' = sw_ssCipher sw
                       \<and> sw_flush sw' = sw_flush sw \<and> sw_rand sw' = sw_rand sw
                       \<and> length (sw_buf sw') = length (sw_buf sw)"
  using assms(1)
proof (cases rule: readFrom_iter_cases)
  case (emit d err r1 err' sw2)
  let ?sw1 = "sw\<lparr>sw_buf := blit (sw_buf sw) (ss + sl + sw_pending sw) d,
                    sw_pending := sw_pending sw + length d\<rparr>"
  have dl: "length d \<le> payloadSizeMask - sw_pending sw" using Read_length [OF emit(1)] .
  have l: "length (sw_buf ?sw1) = length (sw_buf sw)"
    using dl emit(5,6) by (simp add: length_blit)
  have "ss + sl + sw_pending ?sw1 \<le> length (sw_buf ?sw1)" using l dl emit(5,6) by simp
  from emitChunk_general [OF emit(3) _ _ this, of a] assms(2,3) l
  have "sw_aead sw2 = sw_aead sw \<and> sw_ssCipher sw2 = sw_ssCipher sw
        \<and> sw_flush sw2 = sw_flush sw \<and> sw_rand sw2 = sw_rand sw
        \<and> length (sw_buf sw2) = length (sw_buf sw)"
    by simp
  with emit(4) show ?thesis by (auto simp: loop_end_def split: option.splits if_splits)
next
  case (keep d err r1)
  have dl: "length d \<le> payloadSizeMask - sw_pending sw" using Read_length [OF keep(1)] .
  then have "length (blit (sw_buf sw) (ss + sl + sw_pending sw) d) = length (sw_buf sw)"
    using keep(5,6) by (simp add: length_blit)
  with keep(4) show ?thesis by (auto simp: loop_end_def split: option.splits if_splits)
qed


lemma readFrom_loop_returns:
  assumes inv: "loop_inv n0 a c sw" and ok: "aead_ok a" and st: "st \<le> SaltSize c"
  shows "\<exists>res. readFrom_loop md (SaltSize c) (2 + Overhead a) r st wr sw = Some res"
proof (rule readFrom_loop_total [where I = "\<lambda>r st wr sw. loop_inv n0 a c sw \<and> st \<le> SaltSize c"])
  show "loop_inv n0 a c sw \<and> st \<le> SaltSize c" using inv st by simp
next
  fix r st wr sw r' st' wr' sw1
  assume i: "loop_inv n0 a c sw \<and> st \<le> SaltSize c"
    and it: "readFrom_iter md (SaltSize c) (2 + Overhead a) r st wr sw = Some (Inr (r', st', wr', sw1))"
  from readFrom_iter_inv [OF _ it, of n0] i have "loop_inv n0 a c sw1" by simp
  moreover from readFrom_iter_start [OF it] i have "st' \<le> SaltSize c" by auto
  ultimately show "loop_inv n0 a c sw1 \<and> st' \<le> SaltSize c" by simp
next
  fix r st wr sw
  assume "loop_inv n0 a c sw \<and> st \<le> SaltSize c"
  then show "readFrom_iter md (SaltSize c) (2 + Overhead a) r st wr sw \<noteq> None"
    using readFrom_iter_total [OF _ ok] by blast
qed

lemma seal_ok_flush [simp]: "seal_ok (sw\<lparr>sw_flush := b\<rparr>) = seal_ok sw"
  by (simp add: seal_ok_def)

lemma readFrom_returns:
  assumes inv: "sw_inv n0 sw" and ok: "seal_ok sw"
  shows "\<exists>res sw'. readFrom r md sw = Some (res, sw') \<and> seal_ok sw'"
proof -
  obtain e sw0 where i: "sw_init sw = (e, sw0)" by (metis surj_pair)
  note ii = sw_init_inv [OF inv i]
  have ok0: "seal_ok sw0" using sw_init_seal_ok [OF ok i] .
  show ?thesis
  proof (cases e)
    case (Some err)
    with i ok0 show ?thesis by (simp add: readFrom_def)
  next
    case None
    let ?sw1 = "if md = modeNormal then sw0\<lparr>sw_flush := True\<rparr> else sw0"
    let ?st = "if isZero (sw_counter ?sw1) then 0 else SaltSize (sw_ssCipher ?sw1)"
    from ii(7) [OF None] obtain a where a: "sw_aead sw0 = Some a" by auto
    then have a1: "sw_aead ?sw1 = Some a" by simp
    have aok: "aead_ok a" using ok0 a by (simp add: seal_ok_def)
    have inv1: "loop_inv n0 a (sw_ssCipher ?sw1) ?sw1"
      using ii(1) a1 sw_inv_loop_inv [OF a1, of n0] by (simp split: if_splits)
    have st: "?st \<le> SaltSize (sw_ssCipher ?sw1)" by simp
    from readFrom_loop_returns [OF inv1 aok st] obtain res sw' where
      l: "readFrom_loop md (SaltSize (sw_ssCipher ?sw1)) (2 + Overhead a) r ?st 0 ?sw1 = Some (res, sw')"
      by (metis surj_pair)
    have len: "\<not> length (sw_buf ?sw1) < SaltSize (sw_ssCipher ?sw1) + 2 + Overhead a"
      using inv1 by (simp add: loop_inv_def sw_wf_def split: if_splits)
    have r: "readFrom r md sw = Some (res, sw')"
      using i None a1 l len by (simp add: readFrom_def Let_def split: if_splits)
    from loop_inv_aead [OF readFrom_loop_inv [OF l inv1]] ok0 a
    have "seal_ok sw'" by (simp add: seal_ok_def split: if_splits)
    with r show ?thesis by blast
  qed
qed

lemma sw_step_returns:
  assumes inv: "sw_inv n0 sw" and ok: "seal_ok sw"
  shows "\<exists>sw'. sw_step x sw = Some sw' \<and> seal_ok sw'"
proof (cases x)
  case (OpWrite p)
  from readFrom_returns [OF inv ok, of "byteWrapper p" modeNormal] OpWrite
  show ?thesis by (auto simp: Write_def write_mode_def)
next
  case (OpLazyWrite p)
  from readFrom_returns [of n0 "sw\<lparr>sw_flush := False\<rparr>" "byteWrapper p" modeLazy] inv ok OpLazyWrite
  show ?thesis by (auto simp: LazyWrite_def write_mode_def)
next
  case OpFlush
  from readFrom_returns [OF inv ok, of "byteWrapper []" modeFlush] OpFlush ok
  show ?thesis by (auto simp: Flush_def write_mode_def)
next
  case (OpReadFrom r)
  from readFrom_returns [OF inv ok, of r modeNormal] OpReadFrom
  show ?thesis by (auto simp: ReadFrom_def)
qed

lemma sw_run_returns:
  "sw_inv n0 sw \<Longrightarrow> seal_ok sw \<Longrightarrow> \<exists>sw'. sw_run ops sw = Some sw' \<and> seal_ok sw'"
proof (induction ops arbitrary: sw)
  case Nil
  then show ?case by simp
next
  case (Cons x xs)
  from sw_step_returns [OF Cons.prems] obtain sw1 where
    s: "sw_step x sw = Some sw1" and ok1: "seal_ok sw1" by blast
  from Cons.IH [OF sw_step_inv [OF Cons.prems(1) s] ok1] s show ?case by simp
qed

lemma aead_ok_testAEAD: "aead_ok (testAEAD salt)"
  by (simp add: aead_ok_def testAEAD_def)

lemma seal_ok_testWriter: "seal_ok testWriter"
  by (simp add: seal_ok_def testWriter_def NewShadowsocksWriter_def testCipher_def aead_ok_testAEAD)

lemma sw_inv_testWriter: "sw_inv 0 testWriter"
  using sw_inv_New [of testSink testCipher testRand] by (simp add: testWriter_def testSink_def)

lemma testWriter_runs: "\<exists>sw. sw_run ops testWriter = Some sw"
  using sw_run_returns [OF sw_inv_testWriter seal_ok_testWriter] by blast

section \<open>The writer: chunk sizes and nonces\<close>

lemma unat_of_nat_len:
  "L \<le> payloadSizeMask \<Longrightarrow> unat (of_nat L :: 16 word) = L"
  by (simp add: unat_of_nat payloadSizeMask_def)

text \<open>
  C4. After any sequence of \<open>Write\<close>, \<open>LazyWrite\<close>, \<open>ReadFrom\<close> and \<open>Flush\<close> calls
  on a new writer, the calls of \<open>Seal\<close> come in pairs, one pair for every write to
  the sink: a two-byte big-endian length with its top two bits zero, and a payload of
  that length, between 1 and 16383 bytes.
\<close>

theorem chunk_size_discipline:
  assumes "sw_run ops (NewShadowsocksWriter w c rnd) = Some sw"
  shows "even (length (sw_sealed sw))
       \<and> length (written (sw_writer sw)) = length (written w) + length (sw_sealed sw) div 2
       \<and> (\<forall>(lenBlock, payload) \<in> set (pair_up (map snd (sw_sealed sw))).
             1 \<le> length payload \<and> length payload \<le> 16383
           \<and> lenBlock = PutUint16 (of_nat (length payload))
           \<and> unat (Uint16 lenBlock) = length payload
           \<and> Uint16 lenBlock AND 0xC000 = 0)"
proof -
  have inv: "sw_inv (length (written w)) sw"
    using sw_run_inv [OF sw_inv_New assms] .
  show ?thesis
  proof (cases "sw_aead sw")
    case None
    with inv show ?thesis by (simp add: sw_inv_def)
  next
    case (Some a)
    with inv have lg: "log_ok (NonceSize a) (sw_sealed sw)"
      and wl: "length (written (sw_writer sw)) = length (written w) + length (sw_sealed sw) div 2"
      by (simp_all add: sw_inv_def loop_inv_def)
    have "\<forall>(lenBlock, payload) \<in> set (pair_up (map snd (sw_sealed sw))).
             1 \<le> length payload \<and> length payload \<le> 16383
           \<and> lenBlock = PutUint16 (of_nat (length payload))
           \<and> unat (Uint16 lenBlock) = length payload
           \<and> Uint16 lenBlock AND 0xC000 = 0"
    proof (clarify)
      fix lenBlock payload
      assume "(lenBlock, payload) \<in> set (pair_up (map snd (sw_sealed sw)))"
      with lg have l: "lenBlock = PutUint16 (of_nat (length payload))"
        and p: "0 < length payload" "length payload \<le> payloadSizeMask"
        by (auto simp: log_ok_def)
      from p(2) have "length payload \<le> 16383" by (simp add: payloadSizeMask_def)
      moreover from p(1) have "1 \<le> length payload" by arith
      ultimately have "1 \<le> length payload \<and> length payload \<le> 16383" by simp
      with l unat_of_nat_len [OF p(2)] of_nat_small_top_bits [OF p(2)]
      show "1 \<le> length payload \<and> length payload \<le> 16383
           \<and> lenBlock = PutUint16 (of_nat (length payload))
           \<and> unat (Uint16 lenBlock) = length payload
           \<and> Uint16 lenBlock AND 0xC000 = 0"
        by (simp del: One_nat_def)
    qed
    with lg wl show ?thesis by (simp add: log_ok_def)
  qed
qed

text \<open>
  C5. The nonces handed to \<open>Seal\<close> are the counter values 0, 1, 2, ... in order:
  the counter starts at zero, \<open>increment\<close> adds one after every seal, two seals are
  made for every write to the sink, and the value of the \<open>k\<close>-th nonce is \<open>k\<close>
  modulo \<open>256 ^ NonceSize\<close>, which is \<open>k\<close> itself as long as no more than
  \<open>256 ^ NonceSize\<close> seals have been made.
\<close>

theorem nonce_sequence:
  assumes "sw_run ops (NewShadowsocksWriter w c rnd) = Some sw"
  shows "case sw_aead sw of
           None \<Rightarrow> sw_sealed sw = []
         | Some a \<Rightarrow>
             sw_counter sw = (increment ^^ length (sw_sealed sw)) (replicate (NonceSize a) 0)
           \<and> length (sw_sealed sw) = 2 * (length (written (sw_writer sw)) - length (written w))
           \<and> (\<forall>k < length (sw_sealed sw).
                 fst (sw_sealed sw ! k) = (increment ^^ k) (replicate (NonceSize a) 0)
               \<and> le_val (fst (sw_sealed sw ! k)) = k mod 256 ^ NonceSize a
               \<and> (length (sw_sealed sw) \<le> 256 ^ NonceSize a
                    \<longrightarrow> le_val (fst (sw_sealed sw ! k)) = k))"
proof -
  have inv: "sw_inv (length (written w)) sw"
    using sw_run_inv [OF sw_inv_New assms] .
  show ?thesis
  proof (cases "sw_aead sw")
    case None
    with inv show ?thesis by (simp add: sw_inv_def)
  next
    case (Some a)
    with inv have lg: "log_ok (NonceSize a) (sw_sealed sw)"
      and wl: "length (written (sw_writer sw)) = length (written w) + length (sw_sealed sw) div 2"
      and wf: "sw_wf a sw"
      by (simp_all add: sw_inv_def loop_inv_def)
    from lg have ev: "even (length (sw_sealed sw))"
      and ns: "map fst (sw_sealed sw) = map (nonce (NonceSize a)) [0..<length (sw_sealed sw)]"
      by (simp_all add: log_ok_def)
    have n: "fst (sw_sealed sw ! k) = nonce (NonceSize a) k" if "k < length (sw_sealed sw)" for k
    proof -
      from that have "fst (sw_sealed sw ! k) = map fst (sw_sealed sw) ! k" by simp
      also have "\<dots> = nonce (NonceSize a) k" using that by (simp add: ns)
      finally show ?thesis .
    qed
    have "\<forall>k < length (sw_sealed sw).
                 fst (sw_sealed sw ! k) = (increment ^^ k) (replicate (NonceSize a) 0)
               \<and> le_val (fst (sw_sealed sw ! k)) = k mod 256 ^ NonceSize a
               \<and> (length (sw_sealed sw) \<le> 256 ^ NonceSize a
                    \<longrightarrow> le_val (fst (sw_sealed sw ! k)) = k)"
      using n by (auto simp: le_val_nonce nonce_def [symmetric])
    moreover have "sw_counter sw = (increment ^^ length (sw_sealed sw)) (replicate (NonceSize a) 0)"
      using wf by (simp add: sw_wf_def nonce_def)
    moreover have "length (sw_sealed sw) = 2 * (length (written (sw_writer sw)) - length (written w))"
      using wl ev by auto
    ultimately have concl:
      "sw_counter sw = (increment ^^ length (sw_sealed sw)) (replicate (NonceSize a) 0)
           \<and> length (sw_sealed sw) = 2 * (length (written (sw_writer sw)) - length (written w))
           \<and> (\<forall>k < length (sw_sealed sw).
                 fst (sw_sealed sw ! k) = (increment ^^ k) (replicate (NonceSize a) 0)
               \<and> le_val (fst (sw_sealed sw ! k)) = k mod 256 ^ NonceSize a
               \<and> (length (sw_sealed sw) \<le> 256 ^ NonceSize a
                    \<longrightarrow> le_val (fst (sw_sealed sw ! k)) = k))"
      by blast
    show ?thesis unfolding Some option.case by (rule concl)
  qed
qed

section \<open>The writer: what reaches the sink\<close>

definition reader_data :: "reader \<Rightarrow> bytes" where
  "reader_data r = concat (map fst r)"

lemma Read_data: "Read r n = ((d, e), r') \<Longrightarrow> reader_data r = d @ reader_data r'"
  by (cases r) (auto simp: reader_data_def split: if_splits)

definition frame :: "aead \<Rightarrow> (bytes \<times> bytes) \<times> (bytes \<times> bytes) \<Rightarrow> bytes" where
  "frame a = (\<lambda>((n1, p1), (n2, p2)). Seal a n1 p1 @ Seal a n2 p2)"

definition wire_writes :: "aead \<Rightarrow> bytes \<Rightarrow> ((bytes \<times> bytes) \<times> (bytes \<times> bytes)) list \<Rightarrow> bytes list" where
  "wire_writes a salt chunks =
     (case chunks of [] \<Rightarrow> [] | c0 # cs \<Rightarrow> (salt @ frame a c0) # map (frame a) cs)"

lemma wire_writes_snoc:
  "wire_writes a salt (cs @ [c]) = wire_writes a salt cs @ [(if cs = [] then salt else []) @ frame a c]"
  by (cases cs) (simp_all add: wire_writes_def)

definition payloads :: "(bytes \<times> bytes) list \<Rightarrow> bytes list" where
  "payloads sealed = map (\<lambda>(x, y). snd y) (pair_up sealed)"

lemma payloads_snoc:
  "even (length sealed) \<Longrightarrow> payloads (sealed @ [x, y]) = payloads sealed @ [snd y]"
  by (simp add: payloads_def pair_up_append)

definition pending_bytes :: "aead \<Rightarrow> shadowsocksWriter \<Rightarrow> bytes" where
  "pending_bytes a sw =
     slice (sw_buf sw) (SaltSize (sw_ssCipher sw) + (2 + Overhead a))
       (SaltSize (sw_ssCipher sw) + (2 + Overhead a) + sw_pending sw)"

definition start_ok :: "Cipher \<Rightarrow> nat \<Rightarrow> shadowsocksWriter \<Rightarrow> bool" where
  "start_ok c st sw = ((st = 0 \<and> isZero (sw_counter sw)) \<or> (st = SaltSize c \<and> sw_sealed sw \<noteq> []))"

definition wire_inv :: "nat \<Rightarrow> aead \<Rightarrow> Cipher \<Rightarrow> bytes \<Rightarrow> shadowsocksWriter \<Rightarrow> bool" where
  "wire_inv n0 a c salt sw =
     (loop_inv n0 a c sw
      \<and> take (SaltSize c) (sw_buf sw) = salt
      \<and> (length (sw_sealed sw) \<le> 256 ^ NonceSize a
           \<longrightarrow> drop n0 (written (sw_writer sw)) = wire_writes a salt (pair_up (sw_sealed sw))))"

definition data_of :: "aead \<Rightarrow> reader \<Rightarrow> shadowsocksWriter \<Rightarrow> bytes" where
  "data_of a r sw = concat (payloads (sw_sealed sw)) @ pending_bytes a sw @ reader_data r"

lemma isZero_nonce:
  assumes "isZero (nonce N k)" "k < 256 ^ N"
  shows "k = 0"
proof -
  from assms(1) have "le_val (nonce N k) = 0" by (simp add: isZero_le_val)
  then have "k mod 256 ^ N = 0" by (simp add: le_val_nonce)
  with assms(2) show ?thesis by simp
qed

lemma pair_up_empty: "even (length xs) \<Longrightarrow> pair_up xs = [] \<longleftrightarrow> xs = []"
  by (induction xs rule: pair_up.induct) auto

lemma readFrom_iter_wire:
  assumes inv: "wire_inv n0 a c salt sw" and ok: "aead_ok a" and so: "start_ok c st sw"
    and it: "readFrom_iter md (SaltSize c) (2 + Overhead a) r st wr sw = Some x"
  shows "case x of
           Inl (res, sw') \<Rightarrow> wire_inv n0 a c salt sw'
             \<and> data_of a (snd (Read r (payloadSizeMask - sw_pending sw))) sw' = data_of a r sw
         | Inr (r', st', wr', sw') \<Rightarrow>
             wire_inv n0 a c salt sw' \<and> start_ok c st' sw' \<and> data_of a r' sw' = data_of a r sw"
  using it
proof (cases rule: readFrom_iter_cases)
  case (emit d err r1 err' sw2)
  let ?P0 = "SaltSize c + (2 + Overhead a)"
  let ?sw1 = "sw\<lparr>sw_buf := blit (sw_buf sw) (?P0 + sw_pending sw) d,
                    sw_pending := sw_pending sw + length d\<rparr>"
  from inv have li: "loop_inv n0 a c sw" and salt: "take (SaltSize c) (sw_buf sw) = salt"
    and wi: "length (sw_sealed sw) \<le> 256 ^ NonceSize a
           \<longrightarrow> drop n0 (written (sw_writer sw)) = wire_writes a salt (pair_up (sw_sealed sw))"
    by (simp_all add: wire_inv_def)
  from li have wf: "sw_wf a sw" and c: "sw_ssCipher sw = c" and lg: "log_ok (NonceSize a) (sw_sealed sw)"
    and wl: "length (written (sw_writer sw)) = n0 + length (sw_sealed sw) div 2"
    by (simp_all add: loop_inv_def)
  from wf have len: "length (sw_buf sw) = ?P0 + (payloadSizeMask + Overhead a)"
    and cnt: "sw_counter sw = nonce (NonceSize a) (length (sw_sealed sw))"
    by (simp_all add: sw_wf_def c)
  from lg have ev: "even (length (sw_sealed sw))" by (simp add: log_ok_def)
  have dl: "length d \<le> payloadSizeMask - sw_pending sw" using Read_length [OF emit(1)] .
  have wf1: "sw_wf a ?sw1" using sw_wf_read [OF wf dl] c by simp
  have ssq: "SaltSize c = SaltSize (sw_ssCipher ?sw1)" using c by simp
  have st: "st \<le> SaltSize c" using so by (auto simp: start_ok_def)
  have pb1: "slice (sw_buf ?sw1) ?P0 (?P0 + sw_pending ?sw1) = pending_bytes a sw @ d"
    using len dl emit(5) c slice_blit_extend [of ?P0 "?P0 + sw_pending sw" d "sw_buf sw"]
    by (simp add: pending_bytes_def add.assoc)
  have "slice (blit (sw_buf sw) (?P0 + sw_pending sw) d) st (SaltSize c)
      = slice (sw_buf sw) st (SaltSize c)"
    by (rule slice_blit_before) (use len emit(5) in simp_all)
  then have sl1: "slice (sw_buf ?sw1) st (SaltSize c) = slice (sw_buf sw) st (SaltSize c)"
    by simp
  from emitChunk_ok [OF wf1 ok ssq refl st] emit(3) pb1 sl1
  have sealed2: "sw_sealed sw2 = sw_sealed sw @
           [(sw_counter sw, PutUint16 (of_nat (sw_pending ?sw1))),
            (increment (sw_counter sw), pending_bytes a sw @ d)]"
    and written2: "written (sw_writer sw2) = written (sw_writer sw) @
           [slice (sw_buf sw) st (SaltSize c)
            @ Seal a (sw_counter sw) (PutUint16 (of_nat (sw_pending ?sw1)))
            @ Seal a (increment (sw_counter sw)) (pending_bytes a sw @ d)]"
    by auto
  have l1: "SaltSize c + 2 \<le> length (sw_buf ?sw1)" using wf1 c by (simp add: sw_wf_def)
  have l2: "?P0 + sw_pending ?sw1 \<le> length (sw_buf ?sw1)"
    using wf1 c by (simp add: sw_wf_def)
  have a1: "sw_aead ?sw1 = Some a" using wf by (simp add: sw_wf_def)
  note g = emitChunk_general [OF emit(3) a1 l1 l2]
  have x: "case x of Inl (res, sw') \<Rightarrow> loop_inv n0 a c sw'
                 | Inr (r', st', wr', sw') \<Rightarrow> loop_inv n0 a c sw'"
    using readFrom_iter_inv [OF li it] .
  have li2: "loop_inv n0 a c sw2"
    using x emit(4) by (auto simp: loop_end_def split: option.splits if_splits)
  have tb: "take (SaltSize c) (blit (sw_buf sw) (?P0 + sw_pending sw) d) = take (SaltSize c) (sw_buf sw)"
    by (rule take_blit) (use len emit(5) in simp_all)
  have salt2: "take (SaltSize c) (sw_buf sw2) = salt"
    using g(9) salt tb by simp
  have wire2: "drop n0 (written (sw_writer sw2)) = wire_writes a salt (pair_up (sw_sealed sw2))"
    if bound: "length (sw_sealed sw2) \<le> 256 ^ NonceSize a"
  proof -
    from bound have b: "length (sw_sealed sw) < 256 ^ NonceSize a" by (simp add: sealed2)
    with wi have w: "drop n0 (written (sw_writer sw)) = wire_writes a salt (pair_up (sw_sealed sw))"
      by simp
    have pre: "slice (sw_buf sw) st (SaltSize c) = (if pair_up (sw_sealed sw) = [] then salt else [])"
    proof (cases "st = 0 \<and> isZero (sw_counter sw)")
      case True
      with cnt b have "sw_sealed sw = []" using isZero_nonce by auto
      with True salt show ?thesis by (simp add: slice_def)
    next
      case False
      with so have "st = SaltSize c" "sw_sealed sw \<noteq> []" by (auto simp: start_ok_def)
      with ev show ?thesis by (simp add: slice_def pair_up_empty)
    qed
    have "pair_up (sw_sealed sw2) = pair_up (sw_sealed sw) @
            [((sw_counter sw, PutUint16 (of_nat (sw_pending ?sw1))),
              (increment (sw_counter sw), pending_bytes a sw @ d))]"
      using ev by (simp add: sealed2 pair_up_append)
    then show ?thesis
      using w wl pre by (simp add: written2 wire_writes_snoc frame_def)
  qed
  have wi2: "wire_inv n0 a c salt sw2"
    using li2 salt2 wire2 by (simp add: wire_inv_def)
  have so2: "start_ok c (SaltSize c) sw2" by (simp add: start_ok_def sealed2)
  have pb2: "pending_bytes a sw2 = []" using g(4) by (simp add: pending_bytes_def slice_def)
  have data2: "data_of a r1 sw2 = data_of a r sw"
    using Read_data [OF emit(1)] ev by (simp add: data_of_def sealed2 payloads_snoc pb2)
  from emit(4) wi2 so2 data2 emit(1) show ?thesis
    by (auto simp: loop_end_def split: option.splits if_splits)
next
  case (keep d err r1)
  let ?P0 = "SaltSize c + (2 + Overhead a)"
  let ?sw1 = "sw\<lparr>sw_buf := blit (sw_buf sw) (?P0 + sw_pending sw) d,
                    sw_pending := sw_pending sw + length d\<rparr>"
  from inv have li: "loop_inv n0 a c sw" and salt: "take (SaltSize c) (sw_buf sw) = salt"
    and wi: "length (sw_sealed sw) \<le> 256 ^ NonceSize a
           \<longrightarrow> drop n0 (written (sw_writer sw)) = wire_writes a salt (pair_up (sw_sealed sw))"
    by (simp_all add: wire_inv_def)
  from li have wf: "sw_wf a sw" and c: "sw_ssCipher sw = c"
    by (simp_all add: loop_inv_def)
  from wf have len: "length (sw_buf sw) = ?P0 + (payloadSizeMask + Overhead a)"
    by (simp_all add: sw_wf_def c)
  have dl: "length d \<le> payloadSizeMask - sw_pending sw" using Read_length [OF keep(1)] .
  have x: "case x of Inl (res, sw') \<Rightarrow> loop_inv n0 a c sw'
                 | Inr (r', st', wr', sw') \<Rightarrow> loop_inv n0 a c sw'"
    using readFrom_iter_inv [OF li it] .
  have li1: "loop_inv n0 a c ?sw1"
    using x keep(4) by (auto simp: loop_end_def split: option.splits if_splits)
  have tb: "take (SaltSize c) (blit (sw_buf sw) (?P0 + sw_pending sw) d) = take (SaltSize c) (sw_buf sw)"
    by (rule take_blit) (use len keep(5) in simp_all)
  have salt1: "take (SaltSize c) (sw_buf ?sw1) = salt"
    using salt tb by simp
  have wi1: "wire_inv n0 a c salt ?sw1"
    using li1 salt1 wi by (simp add: wire_inv_def)
  have so1: "start_ok c st ?sw1" using so by (simp add: start_ok_def)
  have pb1: "pending_bytes a ?sw1 = pending_bytes a sw @ d"
    using len dl keep(5) c slice_blit_extend [of ?P0 "?P0 + sw_pending sw" d "sw_buf sw"]
    by (simp add: pending_bytes_def add.assoc)
  have data1: "data_of a r1 ?sw1 = data_of a r sw"
    using Read_data [OF keep(1)] unfolding data_of_def pb1 by simp
  from keep(4) wi1 so1 data1 keep(1) show ?thesis
    by (auto simp: loop_end_def split: option.splits if_splits)
qed


lemma readFrom_loop_wire:
  assumes lp: "readFrom_loop md (SaltSize c) (2 + Overhead a) r st wr sw = Some (res, sw')"
    and inv: "wire_inv n0 a c salt sw" and ok: "aead_ok a" and so: "start_ok c st sw"
  shows "wire_inv n0 a c salt sw'"
proof -
  have "case (res, sw') of (res, sw') \<Rightarrow> wire_inv n0 a c salt sw'"
  proof (rule readFrom_loop_rule [OF lp,
        where I = "\<lambda>r st wr sw. wire_inv n0 a c salt sw \<and> start_ok c st sw"])
    show "wire_inv n0 a c salt sw \<and> start_ok c st sw" using inv so by simp
  next
    fix r st wr sw r' st' wr' sw1
    assume i: "wire_inv n0 a c salt sw \<and> start_ok c st sw"
      and it: "readFrom_iter md (SaltSize c) (2 + Overhead a) r st wr sw = Some (Inr (r', st', wr', sw1))"
    from readFrom_iter_wire [OF _ ok _ it, of n0 salt] i
    show "wire_inv n0 a c salt sw1 \<and> start_ok c st' sw1" by simp
  next
    fix r st wr sw res
    assume i: "wire_inv n0 a c salt sw \<and> start_ok c st sw"
      and it: "readFrom_iter md (SaltSize c) (2 + Overhead a) r st wr sw = Some (Inl res)"
    from readFrom_iter_wire [OF _ ok _ it, of n0 salt] i
    show "case res of (res, sw') \<Rightarrow> wire_inv n0 a c salt sw'"
      by (simp split: prod.splits)
  qed
  then show ?thesis by simp
qed

definition wire_ok :: "nat \<Rightarrow> shadowsocksWriter \<Rightarrow> bool" where
  "wire_ok n0 sw =
     (case sw_aead sw of
        None \<Rightarrow> True
      | Some a \<Rightarrow>
          length (sw_sealed sw) \<le> 256 ^ NonceSize a
          \<longrightarrow> drop n0 (written (sw_writer sw))
               = wire_writes a (take (SaltSize (sw_ssCipher sw)) (sw_buf sw)) (pair_up (sw_sealed sw)))"

lemma wire_ok_flush [simp]: "wire_ok n0 (sw\<lparr>sw_flush := b\<rparr>) = wire_ok n0 sw"
  by (simp add: wire_ok_def split: option.splits)

lemma isZero_replicate [simp]: "isZero (replicate n 0)"
  by (induction n) auto

lemma start_ok_entry:
  assumes "loop_inv n0 a c sw"
  shows "start_ok c (if isZero (sw_counter sw) then 0 else SaltSize c) sw"
proof (cases "isZero (sw_counter sw)")
  case True
  then show ?thesis by (simp add: start_ok_def)
next
  case False
  from assms have "sw_counter sw = nonce (NonceSize a) (length (sw_sealed sw))"
    by (simp add: loop_inv_def sw_wf_def)
  with False have "sw_sealed sw \<noteq> []" by (auto simp: nonce_0)
  with False show ?thesis by (simp add: start_ok_def)
qed

lemma sw_init_wire:
  assumes "sw_inv n0 sw" "wire_ok n0 sw" "sw_init sw = (e, sw')"
  shows "wire_ok n0 sw'"
proof (cases "sw_aead sw")
  case (Some a)
  with assms show ?thesis by (simp add: sw_init_def)
next
  case None
  with assms(1) have "sw_sealed sw = []" "length (written (sw_writer sw)) = n0"
    by (simp_all add: sw_inv_def)
  with sw_init_inv(3,5) [OF assms(1,3)] show ?thesis
    by (simp add: wire_ok_def wire_writes_def split: option.splits)
qed

lemma readFrom_wire:
  assumes inv: "sw_inv n0 sw" and ok: "seal_ok sw" and w: "wire_ok n0 sw"
    and rf: "readFrom r md sw = Some (res, sw')"
  shows "wire_ok n0 sw'"
proof -
  obtain e sw0 where i: "sw_init sw = (e, sw0)" by (metis surj_pair)
  note ii = sw_init_inv [OF inv i]
  have ok0: "seal_ok sw0" using sw_init_seal_ok [OF ok i] .
  have w0: "wire_ok n0 sw0" using sw_init_wire [OF inv w i] .
  show ?thesis
  proof (cases e)
    case (Some err)
    with rf i have "sw' = sw0" by (simp add: readFrom_def)
    with w0 show ?thesis by simp
  next
    case None
    let ?sw1 = "if md = modeNormal then sw0\<lparr>sw_flush := True\<rparr> else sw0"
    let ?c = "sw_ssCipher ?sw1"
    let ?st = "if isZero (sw_counter ?sw1) then 0 else SaltSize ?c"
    let ?salt = "take (SaltSize ?c) (sw_buf ?sw1)"
    from ii(7) [OF None] obtain a where a: "sw_aead sw0 = Some a" by auto
    then have a1: "sw_aead ?sw1 = Some a" by simp
    have aok: "aead_ok a" using ok0 a by (simp add: seal_ok_def)
    have inv1: "loop_inv n0 a ?c ?sw1"
      using ii(1) a1 sw_inv_loop_inv [OF a1, of n0] by (simp split: if_splits)
    have w1: "wire_inv n0 a ?c ?salt ?sw1"
      using inv1 w0 a by (simp add: wire_inv_def wire_ok_def split: if_splits)
    from rf i None a1 have
      l: "readFrom_loop md (SaltSize ?c) (2 + Overhead a) r ?st 0 ?sw1 = Some (res, sw')"
      by (auto simp: readFrom_def Let_def split: if_splits)
    from readFrom_loop_wire [OF l w1 aok start_ok_entry [OF inv1]]
    have "wire_inv n0 a ?c ?salt sw'" .
    then show ?thesis
      using loop_inv_aead [of n0 a ?c sw'] by (simp add: wire_inv_def wire_ok_def)
  qed
qed

lemma sw_step_wire:
  assumes inv: "sw_inv n0 sw" and ok: "seal_ok sw" and w: "wire_ok n0 sw"
    and s: "sw_step x sw = Some sw'"
  shows "wire_ok n0 sw'"
proof (cases x)
  case (OpWrite p)
  with s obtain res where "readFrom (byteWrapper p) modeNormal sw = Some (res, sw')"
    by (auto simp: Write_def write_mode_def)
  from readFrom_wire [OF inv ok w this] show ?thesis .
next
  case (OpLazyWrite p)
  with s obtain res where
    "readFrom (byteWrapper p) modeLazy (sw\<lparr>sw_flush := False\<rparr>) = Some (res, sw')"
    by (auto simp: LazyWrite_def write_mode_def)
  from readFrom_wire [OF _ _ _ this, of n0] inv ok w show ?thesis by simp
next
  case OpFlush
  show ?thesis
  proof (cases "sw_flush sw")
    case True
    with s w OpFlush show ?thesis by (simp add: Flush_def)
  next
    case False
    with s OpFlush obtain res sw1 where
      r: "readFrom (byteWrapper []) modeFlush sw = Some (res, sw1)" and "sw' = sw1\<lparr>sw_flush := True\<rparr>"
      by (auto simp: Flush_def write_mode_def split: option.splits)
    with readFrom_wire [OF inv ok w r] show ?thesis by simp
  qed
next
  case (OpReadFrom r)
  with s obtain res where "readFrom r modeNormal sw = Some (res, sw')"
    by (auto simp: ReadFrom_def)
  from readFrom_wire [OF inv ok w this] show ?thesis .
qed

lemma sw_run_wire:
  "sw_inv n0 sw \<Longrightarrow> seal_ok sw \<Longrightarrow> wire_ok n0 sw \<Longrightarrow> sw_run ops sw = Some sw'
     \<Longrightarrow> wire_ok n0 sw'"
proof (induction ops arbitrary: sw)
  case Nil
  then show ?case by simp
next
  case (Cons x xs)
  then obtain sw1 where s: "sw_step x sw = Some sw1" and r: "sw_run xs sw1 = Some sw'"
    by (auto split: option.splits)
  from sw_step_returns [OF Cons.prems(1,2), of x] s have ok1: "seal_ok sw1" by simp
  from Cons.IH [OF sw_step_inv [OF Cons.prems(1) s] ok1
      sw_step_wire [OF Cons.prems(1,2,3) s] r]
  show ?case .
qed

section \<open>The writer: the salt, and concrete runs\<close>

lemma fold_add_replicate [simp]: "fold (+) (replicate n (0 :: byte)) x = x"
  by (induction n) auto

lemma replicate_12: "replicate 12 x = [x, x, x, x, x, x, x, x, x, x, x, x]"
  by (simp add: numeral_eq_Suc)

lemmas eval_defs = sw_init_def testWriter_def NewShadowsocksWriter_def testCipher_def testRand_def
  ReadFull_def ReadFull_loop.simps testAEAD_def payloadSizeMask_def Let_def
  Write_def LazyWrite_def Flush_def ReadFrom_def write_mode_def readFrom_def readFrom_loop.simps
  readFrom_iter_def emitChunk_def encryptBlock_def loop_end_def sink_Write_def testSink_def
  byteWrapper_def blit_def slice_def PutUint16_def testTag_def replicate_12

definition testOps :: "sw_op list" where
  "testOps = [OpLazyWrite [1, 2], OpWrite [3], OpFlush, OpWrite [4]]"

lemma test_run:
  "\<exists>sw. sw_run testOps testWriter = Some sw
      \<and> written (sw_writer sw) = [[7, 9, 0, 3, 19, 1, 2, 3, 23], [0, 1, 19, 4, 23]]
      \<and> sw_sealed sw = [([0, 0, 0, 0, 0, 0, 0, 0, 0, 0, 0, 0], [0, 3]),
                         ([1, 0, 0, 0, 0, 0, 0, 0, 0, 0, 0, 0], [1, 2, 3]),
                         ([2, 0, 0, 0, 0, 0, 0, 0, 0, 0, 0, 0], [0, 1]),
                         ([3, 0, 0, 0, 0, 0, 0, 0, 0, 0, 0, 0], [4])]
      \<and> sw_aead sw = Some (testAEAD [7, 9])
      \<and> take 2 (sw_buf sw) = [7, 9]
      \<and> sw_pending sw = 0
      \<and> sw_counter sw = [4, 0, 0, 0, 0, 0, 0, 0, 0, 0, 0, 0]"
  by (simp add: eval_defs testOps_def)

lemma readFrom_cipher:
  assumes "sw_inv n0 sw" "readFrom r md sw = Some (res, sw')"
  shows "sw_ssCipher sw' = sw_ssCipher sw"
proof -
  obtain e sw0 where i: "sw_init sw = (e, sw0)" by (metis surj_pair)
  note ii = sw_init_inv [OF assms(1) i]
  show ?thesis
  proof (cases e)
    case (Some err)
    with assms(2) i have "sw' = sw0" by (simp add: readFrom_def)
    with ii show ?thesis by simp
  next
    case None
    let ?sw1 = "if md = modeNormal then sw0\<lparr>sw_flush := True\<rparr> else sw0"
    from ii(7) [OF None] obtain a where a: "sw_aead sw0 = Some a" by auto
    then have a1: "sw_aead ?sw1 = Some a" by simp
    have inv1: "loop_inv n0 a (sw_ssCipher ?sw1) ?sw1"
      using ii(1) a1 sw_inv_loop_inv [OF a1, of n0] by (simp split: if_splits)
    from assms(2) i None a1 obtain st where
      "readFrom_loop md (SaltSize (sw_ssCipher ?sw1)) (2 + Overhead a) r st 0 ?sw1 = Some (res, sw')"
      by (auto simp: readFrom_def Let_def split: if_splits)
    from loop_inv_aead [OF readFrom_loop_inv [OF this inv1]] ii(4)
    show ?thesis by (simp split: if_splits)
  qed
qed

lemma sw_step_cipher:
  assumes "sw_inv n0 sw" "sw_step x sw = Some sw'"
  shows "sw_ssCipher sw' = sw_ssCipher sw"
proof (cases x)
  case (OpWrite p)
  with assms(2) obtain res where "readFrom (byteWrapper p) modeNormal sw = Some (res, sw')"
    by (auto simp: Write_def write_mode_def)
  from readFrom_cipher [OF assms(1) this] show ?thesis .
next
  case (OpLazyWrite p)
  with assms(2) obtain res where
    "readFrom (byteWrapper p) modeLazy (sw\<lparr>sw_flush := False\<rparr>) = Some (res, sw')"
    by (auto simp: LazyWrite_def write_mode_def)
  from readFrom_cipher [OF _ this, of n0] assms(1) show ?thesis by simp
next
  case OpFlush
  show ?thesis
  proof (cases "sw_flush sw")
    case True
    with assms OpFlush show ?thesis by (simp add: Flush_def)
  next
    case False
    with assms(2) OpFlush obtain res sw1 where
      r: "readFrom (byteWrapper []) modeFlush sw = Some (res, sw1)" and "sw' = sw1\<lparr>sw_flush := True\<rparr>"
      by (auto simp: Flush_def write_mode_def split: option.splits)
    with readFrom_cipher [OF assms(1) r] show ?thesis by simp
  qed
next
  case (OpReadFrom r)
  with assms(2) obtain res where "readFrom r modeNormal sw = Some (res, sw')"
    by (auto simp: ReadFrom_def)
  from readFrom_cipher [OF assms(1) this] show ?thesis .
qed

lemma sw_run_cipher:
  "sw_inv n0 sw \<Longrightarrow> sw_run ops sw = Some sw' \<Longrightarrow> sw_ssCipher sw' = sw_ssCipher sw"
proof (induction ops arbitrary: sw)
  case Nil
  then show ?case by simp
next
  case (Cons x xs)
  then obtain sw1 where s: "sw_step x sw = Some sw1" and r: "sw_run xs sw1 = Some sw'"
    by (auto split: option.splits)
  from Cons.IH [OF sw_step_inv [OF Cons.prems(1) s] r] sw_step_cipher [OF Cons.prems(1) s]
  show ?case by simp
qed

text \<open>
  C6. When the AEAD keeps the length contract of \<open>cipher.AEAD\<close> (a sealed block
  is its plaintext's length plus \<open>Overhead\<close>) and the counter has not wrapped around
  (no more than \<open>256 ^ NonceSize\<close> seals so far), the writes this writer has made to
  the sink are: first the salt, the sealed length and the sealed payload of the first
  chunk in one write; then, for every later chunk, its sealed length and sealed payload
  alone. The salt is the first \<open>SaltSize\<close> bytes of \<open>sw.buf\<close>.
\<close>

theorem salt_in_first_write_only:
  assumes run: "sw_run ops (NewShadowsocksWriter w c rnd) = Some sw"
    and ok: "\<forall>salt a. Encrypter c salt = Inr a \<longrightarrow> aead_ok a"
    and a: "sw_aead sw = Some a"
    and bound: "length (sw_sealed sw) \<le> 256 ^ NonceSize a"
  shows "drop (length (written w)) (written (sw_writer sw)) =
           (case pair_up (sw_sealed sw) of
              [] \<Rightarrow> []
            | c0 # cs \<Rightarrow> (take (SaltSize c) (sw_buf sw) @ frame a c0) # map (frame a) cs)
         \<and> length (take (SaltSize c) (sw_buf sw)) = SaltSize c"
proof -
  let ?new = "NewShadowsocksWriter w c rnd"
  have i0: "sw_inv (length (written w)) ?new" by (rule sw_inv_New)
  have s0: "seal_ok ?new" using ok by (simp add: seal_ok_def NewShadowsocksWriter_def)
  have w0: "wire_ok (length (written w)) ?new" by (simp add: wire_ok_def NewShadowsocksWriter_def)
  have ci: "sw_ssCipher sw = c"
    using sw_run_cipher [OF i0 run] by (simp add: NewShadowsocksWriter_def)
  from sw_run_wire [OF i0 s0 w0 run] a bound ci
  have "drop (length (written w)) (written (sw_writer sw))
          = wire_writes a (take (SaltSize c) (sw_buf sw)) (pair_up (sw_sealed sw))"
    by (simp add: wire_ok_def)
  moreover from sw_run_inv [OF i0 run] a ci have "SaltSize c \<le> length (sw_buf sw)"
    by (simp add: sw_inv_def loop_inv_def sw_wf_def)
  ultimately show ?thesis by (simp add: wire_writes_def)
qed

theorem salt_in_first_write_only_witness:
  "\<exists>sw. sw_run testOps (NewShadowsocksWriter testSink testCipher testRand) = Some sw
      \<and> sw_aead sw = Some (testAEAD [7, 9])
      \<and> length (sw_sealed sw) \<le> 256 ^ NonceSize (testAEAD [7, 9])
      \<and> take (SaltSize testCipher) (sw_buf sw) = [7, 9]
      \<and> drop (length (written testSink)) (written (sw_writer sw))
          = [[7, 9] @ [0, 3, 19] @ [1, 2, 3, 23], [0, 1, 19] @ [4, 23]]"
proof -
  from test_run obtain sw where r: "sw_run testOps testWriter = Some sw"
    and w: "written (sw_writer sw) = [[7, 9, 0, 3, 19, 1, 2, 3, 23], [0, 1, 19, 4, 23]]"
    and a: "sw_aead sw = Some (testAEAD [7, 9])"
    and s: "take 2 (sw_buf sw) = [7, 9]"
    and l: "sw_sealed sw = [([0, 0, 0, 0, 0, 0, 0, 0, 0, 0, 0, 0], [0, 3]),
                         ([1, 0, 0, 0, 0, 0, 0, 0, 0, 0, 0, 0], [1, 2, 3]),
                         ([2, 0, 0, 0, 0, 0, 0, 0, 0, 0, 0, 0], [0, 1]),
                         ([3, 0, 0, 0, 0, 0, 0, 0, 0, 0, 0, 0], [4])]"
    by blast
  have ok: "\<forall>salt a. Encrypter testCipher salt = Inr a \<longrightarrow> aead_ok a"
    by (simp add: testCipher_def aead_ok_testAEAD)
  have b: "length (sw_sealed sw) \<le> 256 ^ NonceSize (testAEAD [7, 9])"
    by (simp add: l testAEAD_def)
  from salt_in_first_write_only [OF r [unfolded testWriter_def] ok a b]
  have "drop (length (written testSink)) (written (sw_writer sw)) =
           (case pair_up (sw_sealed sw) of
              [] \<Rightarrow> []
            | c0 # cs \<Rightarrow> (take (SaltSize testCipher) (sw_buf sw) @ frame (testAEAD [7, 9]) c0)
                          # map (frame (testAEAD [7, 9])) cs)"
    by simp
  with r a b s w show ?thesis
    by (intro exI [of _ sw]) (simp add: testWriter_def testCipher_def testSink_def)
qed


theorem chunk_size_discipline_witness:
  "\<exists>sw. sw_run testOps (NewShadowsocksWriter testSink testCipher testRand) = Some sw
      \<and> map snd (sw_sealed sw) = [[0, 3], [1, 2, 3], [0, 1], [4]]
      \<and> even (length (sw_sealed sw))
      \<and> length (written (sw_writer sw)) = length (written testSink) + length (sw_sealed sw) div 2
      \<and> (\<forall>(lenBlock, payload) \<in> set (pair_up (map snd (sw_sealed sw))).
             1 \<le> length payload \<and> length payload \<le> 16383
           \<and> lenBlock = PutUint16 (of_nat (length payload))
           \<and> unat (Uint16 lenBlock) = length payload
           \<and> Uint16 lenBlock AND 0xC000 = 0)"
proof -
  from test_run obtain sw where r: "sw_run testOps testWriter = Some sw"
    and l: "sw_sealed sw = [([0, 0, 0, 0, 0, 0, 0, 0, 0, 0, 0, 0], [0, 3]),
                         ([1, 0, 0, 0, 0, 0, 0, 0, 0, 0, 0, 0], [1, 2, 3]),
                         ([2, 0, 0, 0, 0, 0, 0, 0, 0, 0, 0, 0], [0, 1]),
                         ([3, 0, 0, 0, 0, 0, 0, 0, 0, 0, 0, 0], [4])]"
    by blast
  have m: "map snd (sw_sealed sw) = [[0, 3], [1, 2, 3], [0, 1], [4]]" by (simp add: l)
  note r' = r [unfolded testWriter_def]
  note t = chunk_size_discipline [OF r']
  show ?thesis
    by (rule exI [of _ sw], intro conjI)
      (rule r' m t [THEN conjunct1] t [THEN conjunct2, THEN conjunct1]
         t [THEN conjunct2, THEN conjunct2])+
qed

theorem nonce_sequence_witness:
  "\<exists>sw. sw_run testOps (NewShadowsocksWriter testSink testCipher testRand) = Some sw
      \<and> map (le_val \<circ> fst) (sw_sealed sw) = [0, 1, 2, 3]
      \<and> length (written (sw_writer sw)) = 2
      \<and> sw_counter sw = [4, 0, 0, 0, 0, 0, 0, 0, 0, 0, 0, 0]
      \<and> (case sw_aead sw of
           None \<Rightarrow> sw_sealed sw = []
         | Some a \<Rightarrow>
             sw_counter sw = (increment ^^ length (sw_sealed sw)) (replicate (NonceSize a) 0)
           \<and> length (sw_sealed sw) = 2 * (length (written (sw_writer sw)) - length (written testSink))
           \<and> (\<forall>k < length (sw_sealed sw).
                 fst (sw_sealed sw ! k) = (increment ^^ k) (replicate (NonceSize a) 0)
               \<and> le_val (fst (sw_sealed sw ! k)) = k mod 256 ^ NonceSize a
               \<and> (length (sw_sealed sw) \<le> 256 ^ NonceSize a
                    \<longrightarrow> le_val (fst (sw_sealed sw ! k)) = k)))"
proof -
  from test_run obtain sw where r: "sw_run testOps testWriter = Some sw"
    and w: "written (sw_writer sw) = [[7, 9, 0, 3, 19, 1, 2, 3, 23], [0, 1, 19, 4, 23]]"
    and l: "sw_sealed sw = [([0, 0, 0, 0, 0, 0, 0, 0, 0, 0, 0, 0], [0, 3]),
                         ([1, 0, 0, 0, 0, 0, 0, 0, 0, 0, 0, 0], [1, 2, 3]),
                         ([2, 0, 0, 0, 0, 0, 0, 0, 0, 0, 0, 0], [0, 1]),
                         ([3, 0, 0, 0, 0, 0, 0, 0, 0, 0, 0, 0], [4])]"
    and c: "sw_counter sw = [4, 0, 0, 0, 0, 0, 0, 0, 0, 0, 0, 0]"
    by blast
  have m: "map (le_val \<circ> fst) (sw_sealed sw) = [0, 1, 2, 3]" by (simp add: l)
  have n: "length (written (sw_writer sw)) = 2" by (simp add: w)
  note r' = r [unfolded testWriter_def]
  note t = nonce_sequence [OF r']
  show ?thesis
    by (rule exI [of _ sw], intro conjI) (rule r' m n c t)+
qed

section \<open>The writer: lazy writes\<close>

lemma blit_Nil [simp]: "blit buf off [] = buf"
  by (simp add: blit_def)

lemma readFrom_iter_EOF:
  assumes "sw_pending sw < payloadSizeMask" "ss + sl + payloadSizeMask \<le> length (sw_buf sw)"
    and "md = modeLazy \<or> sw_pending sw = 0"
  shows "readFrom_iter md ss sl [] st wr sw = Some (Inl ((wr, None), sw))"
  using assms by (auto simp: readFrom_iter_def loop_end_def)

lemma readFrom_loop_EOF:
  assumes "sw_pending sw < payloadSizeMask" "ss + sl + payloadSizeMask \<le> length (sw_buf sw)"
    and "md = modeLazy \<or> sw_pending sw = 0"
  shows "readFrom_loop md ss sl [] st wr sw = Some ((wr, None), sw)"
  by (simp add: readFrom_loop_unfold readFrom_iter_EOF [OF assms])

lemma readFrom_loop_lazy_small:
  assumes p: "sw_pending sw + length p < payloadSizeMask"
    and l: "ss + sl + payloadSizeMask \<le> length (sw_buf sw)"
  shows "readFrom_loop modeLazy ss sl (byteWrapper p) st wr sw
       = Some ((wr + length p, None),
               sw\<lparr>sw_buf := blit (sw_buf sw) (ss + sl + sw_pending sw) p,
                  sw_pending := sw_pending sw + length p\<rparr>)"
proof (cases "p = []")
  case True
  with readFrom_loop_EOF [of sw ss sl modeLazy st wr] p l show ?thesis
    by (simp add: byteWrapper_def)
next
  case False
  let ?sw1 = "sw\<lparr>sw_buf := blit (sw_buf sw) (ss + sl + sw_pending sw) p,
                  sw_pending := sw_pending sw + length p\<rparr>"
  have it: "readFrom_iter modeLazy ss sl (byteWrapper p) st wr sw
      = Some (Inr ([], st, wr + length p, ?sw1))"
    using False p l by (simp add: readFrom_iter_def byteWrapper_def loop_end_def Let_def)
  have l1: "ss + sl + payloadSizeMask \<le> length (sw_buf ?sw1)"
    using p l by (simp add: length_blit)
  have "readFrom_loop modeLazy ss sl [] st (wr + length p) ?sw1 = Some ((wr + length p, None), ?sw1)"
    by (rule readFrom_loop_EOF) (use p l1 in simp_all)
  with it show ?thesis by (simp add: readFrom_loop_unfold)
qed


lemma pending_bytes_flush [simp]: "pending_bytes a (sw\<lparr>sw_flush := b\<rparr>) = pending_bytes a sw"
  by (simp add: pending_bytes_def)

lemma sw_init_pending_bytes:
  assumes "sw_inv n0 sw" "sw_init sw = (None, sw0)"
  shows "pending_bytes a sw0 = pending_bytes a sw"
proof (cases "sw_aead sw")
  case None
  with assms(1) have "sw_pending sw = 0" by (simp add: sw_inv_def)
  with sw_init_inv(4,6) [OF assms] show ?thesis by (simp add: pending_bytes_def slice_def)
next
  case (Some a')
  with assms(2) show ?thesis by (simp add: sw_init_def)
qed

text \<open>
  C7, as the code has it. \<open>LazyWrite(p)\<close> leaves the sink alone as long as \<open>p\<close>
  does not fill the buffer, that is while the pending bytes and \<open>p\<close> together are
  fewer than 16383: no write and no seal happen, and when \<open>init\<close> has succeeded
  \<open>p\<close> is appended to the pending bytes in \<open>payloadBuf\<close>.
\<close>

theorem LazyWrite_buffers_below_capacity:
  assumes run: "sw_run ops (NewShadowsocksWriter w c rnd) = Some sw"
    and small: "sw_pending sw + length p < 16383"
  shows "\<exists>n err sw'. LazyWrite p sw = Some ((n, err), sw')
          \<and> written (sw_writer sw') = written (sw_writer sw)
          \<and> sw_sealed sw' = sw_sealed sw
          \<and> (err = None \<longrightarrow>
                n = length p \<and> sw_pending sw' = sw_pending sw + length p
                \<and> (\<exists>a. sw_aead sw' = Some a \<and> pending_bytes a sw' = pending_bytes a sw @ p))
          \<and> (err \<noteq> None \<longrightarrow> sw_aead sw' = None \<and> sw_pending sw' = sw_pending sw)"
proof -
  let ?sw = "sw\<lparr>sw_flush := False\<rparr>"
  have inv: "sw_inv (length (written w)) ?sw"
    using sw_run_inv [OF sw_inv_New run] by simp
  obtain e sw0 where i: "sw_init ?sw = (e, sw0)" by (metis surj_pair)
  note ii = sw_init_inv [OF inv i]
  show ?thesis
  proof (cases e)
    case (Some err)
    with i have "LazyWrite p sw = Some ((0, Some err), sw0)"
      by (simp add: LazyWrite_def write_mode_def readFrom_def)
    with ii Some show ?thesis by simp
  next
    case None
    from ii(7) [OF None] obtain a where a: "sw_aead sw0 = Some a" by auto
    let ?c = "sw_ssCipher sw0"
    let ?st = "if isZero (sw_counter sw0) then 0 else SaltSize ?c"
    let ?P0 = "SaltSize ?c + (2 + Overhead a)"
    let ?sw' = "sw0\<lparr>sw_buf := blit (sw_buf sw0) (?P0 + sw_pending sw0) p,
                  sw_pending := sw_pending sw0 + length p\<rparr>"
    have li: "loop_inv (length (written w)) a ?c sw0"
      using ii(1) a by (simp add: sw_inv_def)
    then have len: "length (sw_buf sw0) = ?P0 + (payloadSizeMask + Overhead a)"
      by (simp add: loop_inv_def sw_wf_def)
    have sm: "sw_pending sw0 + length p < payloadSizeMask"
      using small ii(6) by (simp add: payloadSizeMask_def)
    have lp: "readFrom_loop modeLazy (SaltSize ?c) (2 + Overhead a) (byteWrapper p) ?st 0 sw0
        = Some ((0 + length p, None), ?sw')"
      by (rule readFrom_loop_lazy_small [OF sm]) (use len in simp)
    have lw: "LazyWrite p sw = Some ((length p, None), ?sw')"
      using i None a lp len
      by (simp add: LazyWrite_def write_mode_def readFrom_def Let_def)
    have "pending_bytes a ?sw' = pending_bytes a sw0 @ p"
      using len sm slice_blit_extend [of ?P0 "?P0 + sw_pending sw0" p "sw_buf sw0"]
      by (simp add: pending_bytes_def add.assoc)
    also have "pending_bytes a sw0 = pending_bytes a sw"
      using sw_init_pending_bytes [OF inv i [unfolded None]] by simp
    finally have "pending_bytes a ?sw' = pending_bytes a sw @ p" .
    with lw ii a show ?thesis by simp
  qed
qed


lemma readFrom_aead:
  assumes inv: "sw_inv n0 sw" and a: "sw_aead sw = Some a"
    and rf: "readFrom r md sw = Some (res, sw')"
  shows "sw_aead sw' = Some a"
proof -
  let ?sw1 = "if md = modeNormal then sw\<lparr>sw_flush := True\<rparr> else sw"
  have i: "sw_init sw = (None, sw)" using a by (simp add: sw_init_def)
  have a1: "sw_aead ?sw1 = Some a" using a by simp
  have inv1: "loop_inv n0 a (sw_ssCipher ?sw1) ?sw1"
    using inv a1 sw_inv_loop_inv [OF a1, of n0] by (simp split: if_splits)
  from rf i a1 obtain st where
    "readFrom_loop md (SaltSize (sw_ssCipher ?sw1)) (2 + Overhead a) r st 0 ?sw1 = Some (res, sw')"
    by (auto simp: readFrom_def Let_def split: if_splits)
  from loop_inv_aead [OF readFrom_loop_inv [OF this inv1]] show ?thesis by simp
qed

lemma test_lazy_run:
  "\<exists>sw. sw_run [OpLazyWrite [1, 2]] testWriter = Some sw
      \<and> written (sw_writer sw) = [] \<and> sw_pending sw = 2 \<and> sw_sealed sw = []
      \<and> sw_aead sw = Some (testAEAD [7, 9])
      \<and> pending_bytes (testAEAD [7, 9]) sw = [1, 2]"
  by (simp add: eval_defs pending_bytes_def)

theorem LazyWrite_buffers_below_capacity_witness:
  "\<exists>sw. sw_run [OpLazyWrite [1, 2]] (NewShadowsocksWriter testSink testCipher testRand) = Some sw
      \<and> sw_pending sw + length [3 :: byte] < 16383
      \<and> (\<exists>sw'. LazyWrite [3] sw = Some ((1, None), sw')
             \<and> written (sw_writer sw') = []
             \<and> sw_sealed sw' = []
             \<and> sw_pending sw' = 3
             \<and> sw_aead sw' = Some (testAEAD [7, 9])
             \<and> pending_bytes (testAEAD [7, 9]) sw' = [1, 2, 3])"
proof -
  from test_lazy_run obtain sw where r: "sw_run [OpLazyWrite [1, 2]] testWriter = Some sw"
    and w: "written (sw_writer sw) = []" and p: "sw_pending sw = 2" and l: "sw_sealed sw = []"
    and a: "sw_aead sw = Some (testAEAD [7, 9])"
    and b: "pending_bytes (testAEAD [7, 9]) sw = [1, 2]"
    by blast
  note r' = r [unfolded testWriter_def]
  have small: "sw_pending sw + length [3 :: byte] < 16383" by (simp add: p)
  from LazyWrite_buffers_below_capacity [OF r' small]
  obtain n err sw' where lw: "LazyWrite [3] sw = Some ((n, err), sw')"
    and w': "written (sw_writer sw') = written (sw_writer sw)"
    and l': "sw_sealed sw' = sw_sealed sw"
    and ok: "err = None \<longrightarrow>
                n = length [3 :: byte] \<and> sw_pending sw' = sw_pending sw + length [3 :: byte]
                \<and> (\<exists>a. sw_aead sw' = Some a \<and> pending_bytes a sw' = pending_bytes a sw @ [3])"
    and bad: "err \<noteq> None \<longrightarrow> sw_aead sw' = None \<and> sw_pending sw' = sw_pending sw"
    by blast
  have inv: "sw_inv 0 (sw\<lparr>sw_flush := False\<rparr>)"
    using sw_run_inv [OF sw_inv_testWriter r] by simp
  have a': "sw_aead sw' = Some (testAEAD [7, 9])"
    using readFrom_aead [OF inv _ lw [unfolded LazyWrite_def write_mode_def]] a by simp
  with bad have e: "err = None" by auto
  with ok a' b have "n = 1" "sw_pending sw' = 3" "pending_bytes (testAEAD [7, 9]) sw' = [1, 2, 3]"
    by (auto simp: p)
  with lw e w w' l l' a' have "LazyWrite [3] sw = Some ((1, None), sw')
             \<and> written (sw_writer sw') = []
             \<and> sw_sealed sw' = []
             \<and> sw_pending sw' = 3
             \<and> sw_aead sw' = Some (testAEAD [7, 9])
             \<and> pending_bytes (testAEAD [7, 9]) sw' = [1, 2, 3]"
    by simp
  with r' small show ?thesis by blast
qed

text \<open>
  The claim as stated fails when \<open>p\<close> fills the buffer: a \<open>LazyWrite\<close> of 16383
  bytes on a new writer writes one chunk to the sink.
\<close>

theorem LazyWrite_full_buffer_reaches_sink:
  "written (sw_writer testWriter) = []
   \<and> map_option fst (LazyWrite (replicate 16383 0) testWriter) = Some (16383, None)
   \<and> map_option (length \<circ> written \<circ> sw_writer \<circ> snd) (LazyWrite (replicate 16383 0) testWriter)
       = Some 1
   \<and> map_option (sw_pending \<circ> snd) (LazyWrite (replicate 16383 0) testWriter) = Some 0"
  by (simp add: eval_defs)

section \<open>The writer: flushing\<close>

lemma readFrom_iter_pending:
  assumes "readFrom_iter md ss sl r st wr sw = Some (Inl (res, sw'))" "md \<noteq> modeLazy"
  shows "sw_pending sw' = 0"
  using assms(1)
proof (cases rule: readFrom_iter_cases)
  case (emit d err r1 err' sw2)
  from emit(4) have "sw' = sw2" by (auto dest: loop_end_cases)
  with emitChunk_pending [OF emit(3)] show ?thesis by simp
next
  case (keep d err r1)
  from keep(4) have "sw' = sw\<lparr>sw_buf := blit (sw_buf sw) (ss + sl + sw_pending sw) d,
                 sw_pending := sw_pending sw + length d\<rparr>"
    by (auto dest: loop_end_cases)
  with keep(3) assms(2) show ?thesis by simp
qed

lemma readFrom_loop_pending:
  assumes "readFrom_loop md ss sl r st wr sw = Some (res, sw')" "md \<noteq> modeLazy"
  shows "sw_pending sw' = 0"
proof -
  have "case (res, sw') of (res, sw') \<Rightarrow> sw_pending sw' = 0"
  proof (rule readFrom_loop_rule [OF assms(1), where I = "\<lambda>r st wr sw. True"])
    fix r st wr sw res
    assume "readFrom_iter md ss sl r st wr sw = Some (Inl res)"
    then show "case res of (res, sw') \<Rightarrow> sw_pending sw' = 0"
      using readFrom_iter_pending [OF _ assms(2)] by (cases res) auto
  qed simp_all
  then show ?thesis by simp
qed

lemma readFrom_pending:
  assumes inv: "sw_inv n0 sw" and rf: "readFrom r md sw = Some (res, sw')" and md: "md \<noteq> modeLazy"
  shows "sw_pending sw' = 0"
proof -
  obtain e sw0 where i: "sw_init sw = (e, sw0)" by (metis surj_pair)
  note ii = sw_init_inv [OF inv i]
  show ?thesis
  proof (cases e)
    case (Some err)
    with rf i have "sw' = sw0" by (simp add: readFrom_def)
    with ii(1) ii(8) Some show ?thesis by (simp add: sw_inv_def)
  next
    case None
    from rf i None obtain ss sl st sw1 where
      "readFrom_loop md ss sl r st 0 sw1 = Some (res, sw')"
      by (auto simp: readFrom_def Let_def split: if_splits option.splits)
    from readFrom_loop_pending [OF this md] show ?thesis .
  qed
qed

lemma readFrom_loop_flush:
  assumes lp: "readFrom_loop md (SaltSize c) (2 + Overhead a) r st wr sw = Some (res, sw')"
    and inv: "loop_inv n0 a c sw"
  shows "sw_flush sw' = sw_flush sw"
proof -
  have "case (res, sw') of (res, sw') \<Rightarrow> sw_flush sw' = sw_flush sw"
  proof (rule readFrom_loop_rule [OF lp,
        where I = "\<lambda>r st wr sw1. loop_inv n0 a c sw1 \<and> sw_flush sw1 = sw_flush sw"])
    show "loop_inv n0 a c sw \<and> sw_flush sw = sw_flush sw" using inv by simp
  next
    fix r st wr sw0 r' st' wr' sw1
    assume i: "loop_inv n0 a c sw0 \<and> sw_flush sw0 = sw_flush sw"
      and it: "readFrom_iter md (SaltSize c) (2 + Overhead a) r st wr sw0 = Some (Inr (r', st', wr', sw1))"
    from i have "sw_aead sw0 = Some a" "SaltSize c + 2 \<le> length (sw_buf sw0)"
      by (simp_all add: loop_inv_def sw_wf_def)
    from readFrom_iter_frame [OF it this] readFrom_iter_inv [OF _ it, of n0] i
    show "loop_inv n0 a c sw1 \<and> sw_flush sw1 = sw_flush sw" by simp
  next
    fix r st wr sw0 res
    assume i: "loop_inv n0 a c sw0 \<and> sw_flush sw0 = sw_flush sw"
      and it: "readFrom_iter md (SaltSize c) (2 + Overhead a) r st wr sw0 = Some (Inl res)"
    from i have "sw_aead sw0 = Some a" "SaltSize c + 2 \<le> length (sw_buf sw0)"
      by (simp_all add: loop_inv_def sw_wf_def)
    from readFrom_iter_frame [OF it this] i
    show "case res of (res, sw') \<Rightarrow> sw_flush sw' = sw_flush sw"
      by (cases res) simp
  qed
  then show ?thesis by simp
qed

lemma readFrom_flush:
  assumes inv: "sw_inv n0 sw" and rf: "readFrom r md sw = Some (res, sw')" and md: "md \<noteq> modeNormal"
  shows "sw_flush sw' = sw_flush sw"
proof -
  obtain e sw0 where i: "sw_init sw = (e, sw0)" by (metis surj_pair)
  note ii = sw_init_inv [OF inv i]
  show ?thesis
  proof (cases e)
    case (Some err)
    with rf i have "sw' = sw0" by (simp add: readFrom_def)
    with ii show ?thesis by simp
  next
    case None
    from ii(7) [OF None] obtain a where a: "sw_aead sw0 = Some a" by auto
    have inv0: "loop_inv n0 a (sw_ssCipher sw0) sw0"
      using ii(1) a by (simp add: sw_inv_def)
    from rf i None a md obtain st where
      "readFrom_loop md (SaltSize (sw_ssCipher sw0)) (2 + Overhead a) r st 0 sw0 = Some (res, sw')"
      by (auto simp: readFrom_def Let_def split: if_splits)
    from readFrom_loop_flush [OF this inv0] ii(2) show ?thesis by simp
  qed
qed

text \<open>Once the \<open>sync.Once\<close> has run, nothing is pending.\<close>

definition flush_inv :: "shadowsocksWriter \<Rightarrow> bool" where
  "flush_inv sw = (sw_flush sw \<longrightarrow> sw_pending sw = 0)"

lemma sw_step_flush_inv:
  assumes inv: "sw_inv n0 sw" and f: "flush_inv sw" and s: "sw_step x sw = Some sw'"
  shows "flush_inv sw'"
proof (cases x)
  case (OpWrite p)
  with s obtain res where "readFrom (byteWrapper p) modeNormal sw = Some (res, sw')"
    by (auto simp: Write_def write_mode_def)
  from readFrom_pending [OF inv this] show ?thesis by (simp add: flush_inv_def)
next
  case (OpLazyWrite p)
  with s obtain res where
    r: "readFrom (byteWrapper p) modeLazy (sw\<lparr>sw_flush := False\<rparr>) = Some (res, sw')"
    by (auto simp: LazyWrite_def write_mode_def)
  from readFrom_flush [OF _ r, of n0] inv show ?thesis by (simp add: flush_inv_def)
next
  case OpFlush
  show ?thesis
  proof (cases "sw_flush sw")
    case True
    with s f OpFlush show ?thesis by (simp add: Flush_def)
  next
    case False
    with s OpFlush obtain res sw1 where
      r: "readFrom (byteWrapper []) modeFlush sw = Some (res, sw1)" and "sw' = sw1\<lparr>sw_flush := True\<rparr>"
      by (auto simp: Flush_def write_mode_def split: option.splits)
    with readFrom_pending [OF inv r] show ?thesis by (simp add: flush_inv_def)
  qed
next
  case (OpReadFrom r)
  with s obtain res where "readFrom r modeNormal sw = Some (res, sw')"
    by (auto simp: ReadFrom_def)
  from readFrom_pending [OF inv this] show ?thesis by (simp add: flush_inv_def)
qed

lemma sw_run_flush_inv:
  "sw_inv n0 sw \<Longrightarrow> flush_inv sw \<Longrightarrow> sw_run ops sw = Some sw' \<Longrightarrow> flush_inv sw'"
proof (induction ops arbitrary: sw)
  case Nil
  then show ?case by simp
next
  case (Cons x xs)
  then obtain sw1 where s: "sw_step x sw = Some sw1" and r: "sw_run xs sw1 = Some sw'"
    by (auto split: option.splits)
  from Cons.IH [OF sw_step_inv [OF Cons.prems(1) s] sw_step_flush_inv [OF Cons.prems(1,2) s] r]
  show ?case .
qed

fun is_lazy :: "sw_op \<Rightarrow> bool" where
  "is_lazy (OpLazyWrite p) = True"
| "is_lazy _ = False"

lemma sw_step_pending_zero:
  assumes inv: "sw_inv n0 sw" and f: "flush_inv sw" and s: "sw_step x sw = Some sw'"
    and nl: "\<not> is_lazy x"
  shows "sw_pending sw' = 0"
proof (cases x)
  case (OpWrite p)
  with s obtain res where "readFrom (byteWrapper p) modeNormal sw = Some (res, sw')"
    by (auto simp: Write_def write_mode_def)
  from readFrom_pending [OF inv this] show ?thesis by simp
next
  case (OpLazyWrite p)
  with nl show ?thesis by simp
next
  case OpFlush
  show ?thesis
  proof (cases "sw_flush sw")
    case True
    with s f OpFlush show ?thesis by (simp add: Flush_def flush_inv_def)
  next
    case False
    with s OpFlush obtain res sw1 where
      r: "readFrom (byteWrapper []) modeFlush sw = Some (res, sw1)" and "sw' = sw1\<lparr>sw_flush := True\<rparr>"
      by (auto simp: Flush_def write_mode_def split: option.splits)
    with readFrom_pending [OF inv r] show ?thesis by simp
  qed
next
  case (OpReadFrom r)
  with s obtain res where "readFrom r modeNormal sw = Some (res, sw')"
    by (auto simp: ReadFrom_def)
  from readFrom_pending [OF inv this] show ?thesis by simp
qed

lemma sw_run_pending_zero:
  "sw_inv n0 sw \<Longrightarrow> flush_inv sw \<Longrightarrow> sw_pending sw = 0 \<Longrightarrow> sw_run ys sw = Some sw'
     \<Longrightarrow> \<forall>y \<in> set ys. \<not> is_lazy y \<Longrightarrow> sw_pending sw' = 0"
proof (induction ys arbitrary: sw)
  case Nil
  then show ?case by simp
next
  case (Cons x xs)
  then obtain sw1 where s: "sw_step x sw = Some sw1" and r: "sw_run xs sw1 = Some sw'"
    by (auto split: option.splits)
  from Cons.prems(5) have nl: "\<not> is_lazy x" and rest: "\<forall>y \<in> set xs. \<not> is_lazy y" by auto
  from Cons.IH [OF sw_step_inv [OF Cons.prems(1) s] sw_step_flush_inv [OF Cons.prems(1,2) s]
      sw_step_pending_zero [OF Cons.prems(1,2) s nl] r rest]
  show ?case .
qed

lemma Flush_nothing_pending:
  assumes inv: "sw_inv n0 sw" and z: "sw_pending sw = 0"
  shows "\<exists>err sw'. Flush sw = Some (err, sw')
           \<and> written (sw_writer sw') = written (sw_writer sw)
           \<and> sw_sealed sw' = sw_sealed sw \<and> sw_pending sw' = 0"
proof (cases "sw_flush sw")
  case True
  with z show ?thesis by (simp add: Flush_def)
next
  case False
  obtain e sw0 where i: "sw_init sw = (e, sw0)" by (metis surj_pair)
  note ii = sw_init_inv [OF inv i]
  show ?thesis
  proof (cases e)
    case (Some err)
    with i False ii z show ?thesis
      by (simp add: Flush_def write_mode_def readFrom_def)
  next
    case None
    from ii(7) [OF None] obtain a where a: "sw_aead sw0 = Some a" by auto
    let ?c = "sw_ssCipher sw0"
    let ?st = "if isZero (sw_counter sw0) then 0 else SaltSize ?c"
    have li: "loop_inv n0 a ?c sw0" using ii(1) a by (simp add: sw_inv_def)
    then have len: "length (sw_buf sw0) = SaltSize ?c + (2 + Overhead a) + (payloadSizeMask + Overhead a)"
      by (simp add: loop_inv_def sw_wf_def)
    have z0: "sw_pending sw0 = 0" using ii(6) z by simp
    have "readFrom_loop modeFlush (SaltSize ?c) (2 + Overhead a) [] ?st 0 sw0 = Some ((0, None), sw0)"
      by (rule readFrom_loop_EOF) (use len z0 in \<open>simp_all add: payloadSizeMask_def\<close>)
    then have "Flush sw = Some (None, sw0\<lparr>sw_flush := True\<rparr>)"
      using i None a False len
      by (simp add: Flush_def write_mode_def readFrom_def Let_def byteWrapper_def)
    with ii z0 show ?thesis by simp
  qed
qed

text \<open>
  C8. After a \<open>Flush\<close>, a \<open>Write\<close> or a \<open>ReadFrom\<close> has returned, and with no
  \<open>LazyWrite\<close> since, \<open>Flush\<close> returns without a write to the sink and without
  a seal.
\<close>

theorem Flush_after_flush_is_noop:
  assumes reach: "sw_run ops (NewShadowsocksWriter w c rnd) = Some sw"
    and run: "sw_run (x # ys) sw = Some sw'"
    and nolazy: "\<forall>y \<in> set (x # ys). \<not> is_lazy y"
  shows "\<exists>err sw''. Flush sw' = Some (err, sw'')
           \<and> written (sw_writer sw'') = written (sw_writer sw')
           \<and> sw_sealed sw'' = sw_sealed sw'"
proof -
  let ?n0 = "length (written w)"
  have inv: "sw_inv ?n0 sw" using sw_run_inv [OF sw_inv_New reach] .
  have f0: "flush_inv (NewShadowsocksWriter w c rnd)"
    by (simp add: flush_inv_def NewShadowsocksWriter_def)
  have f: "flush_inv sw" using sw_run_flush_inv [OF sw_inv_New f0 reach] .
  from run obtain sw1 where s: "sw_step x sw = Some sw1" and r: "sw_run ys sw1 = Some sw'"
    by (auto split: option.splits)
  from nolazy have nl: "\<not> is_lazy x" and rest: "\<forall>y \<in> set ys. \<not> is_lazy y" by auto
  have inv1: "sw_inv ?n0 sw1" using sw_step_inv [OF inv s] .
  have f1: "flush_inv sw1" using sw_step_flush_inv [OF inv f s] .
  have z1: "sw_pending sw1 = 0" using sw_step_pending_zero [OF inv f s nl] .
  have z': "sw_pending sw' = 0" using sw_run_pending_zero [OF inv1 f1 z1 r rest] .
  have inv': "sw_inv ?n0 sw'" using sw_run_inv [OF inv1 r] .
  from Flush_nothing_pending [OF inv' z'] show ?thesis by blast
qed


lemma test_flush_run:
  "\<exists>sw'. sw_run [OpLazyWrite [1, 2], OpFlush] testWriter = Some sw'
      \<and> written (sw_writer sw') = [[7, 9, 0, 2, 18, 1, 2, 20]]"
  by (simp add: eval_defs)

theorem Flush_after_flush_is_noop_witness:
  "\<exists>sw sw'. sw_run [OpLazyWrite [1, 2]] (NewShadowsocksWriter testSink testCipher testRand) = Some sw
      \<and> sw_run [OpFlush] sw = Some sw'
      \<and> written (sw_writer sw) = []
      \<and> written (sw_writer sw') = [[7, 9, 0, 2, 18, 1, 2, 20]]
      \<and> (\<exists>err sw''. Flush sw' = Some (err, sw'')
             \<and> written (sw_writer sw'') = [[7, 9, 0, 2, 18, 1, 2, 20]]
             \<and> sw_sealed sw'' = sw_sealed sw')"
proof -
  from test_flush_run obtain sw' where
    r2: "sw_run [OpLazyWrite [1, 2], OpFlush] testWriter = Some sw'"
    and w': "written (sw_writer sw') = [[7, 9, 0, 2, 18, 1, 2, 20]]"
    by blast
  from test_lazy_run obtain sw where r: "sw_run [OpLazyWrite [1, 2]] testWriter = Some sw"
    and w: "written (sw_writer sw) = []"
    by blast
  from r r2 have rf: "sw_run [OpFlush] sw = Some sw'"
    by (auto split: option.splits)
  note r' = r [unfolded testWriter_def]
  have nl: "\<forall>y \<in> set [OpFlush]. \<not> is_lazy y" by simp
  from Flush_after_flush_is_noop [OF r' rf nl] w' r' rf w show ?thesis by auto
qed

section \<open>The reader: reading from a stream that ends\<close>

definition reader_ok :: "reader \<Rightarrow> bool" where
  "reader_ok r = list_all (\<lambda>(d, e). e = None) r"

lemma reader_ok_simps [simp]:
  "reader_ok []" "reader_ok ((d, e) # r) \<longleftrightarrow> e = None \<and> reader_ok r"
  by (simp_all add: reader_ok_def)

lemma reader_data_simps [simp]:
  "reader_data [] = []" "reader_data ((d, e) # r) = d @ reader_data r"
  by (simp_all add: reader_data_def)

lemma ReadFull_loop_ok_enough:
  "reader_ok r \<Longrightarrow> length acc \<le> m \<Longrightarrow> m - length acc \<le> length (reader_data r)
     \<Longrightarrow> \<exists>r'. ReadFull_loop r m acc = ((acc @ take (m - length acc) (reader_data r), None), r')
            \<and> reader_ok r' \<and> reader_data r' = drop (m - length acc) (reader_data r)"
proof (induction r arbitrary: acc)
  case Nil
  then show ?case by (simp add: ReadFull_loop_done)
next
  case (Cons x r)
  obtain d e where x: "x = (d, e)" by (cases x)
  with Cons.prems have e: "e = None" and ok: "reader_ok r" by simp_all
  show ?case
  proof (cases "length acc < m")
    case False
    with Cons.prems x show ?thesis by (simp add: ReadFull_loop_done)
  next
    case True
    show ?thesis
    proof (cases "length d \<le> m - length acc")
      case True
      have rd: "Read ((d, None) # r) (m - length acc) = ((d, None), r)" using True by simp
      have "\<exists>r'. ReadFull_loop r m (acc @ d)
              = (((acc @ d) @ take (m - length (acc @ d)) (reader_data r), None), r')
            \<and> reader_ok r' \<and> reader_data r' = drop (m - length (acc @ d)) (reader_data r)"
        by (rule Cons.IH [OF ok]) (use True \<open>length acc < m\<close> Cons.prems x in auto)
      with True \<open>length acc < m\<close> show ?thesis
        by (simp add: ReadFull_loop_more [OF \<open>length acc < m\<close> rd] x e)
    next
      case False
      have rd: "Read ((d, None) # r) (m - length acc)
          = ((take (m - length acc) d, None), (drop (m - length acc) d, None) # r)"
        using False by simp
      have "ReadFull_loop ((drop (m - length acc) d, None) # r) m (acc @ take (m - length acc) d)
          = ((acc @ take (m - length acc) d, None), (drop (m - length acc) d, None) # r)"
        by (rule ReadFull_loop_done) (use False True in simp)
      with False ok show ?thesis
        by (simp add: ReadFull_loop_more [OF True rd] x e)
    qed
  qed
qed

lemma ReadFull_loop_ok_short:
  "reader_ok r \<Longrightarrow> length (reader_data r) + length acc < m
     \<Longrightarrow> ReadFull_loop r m acc
         = ((acc @ reader_data r,
             Some (if acc @ reader_data r = [] then EOF else ErrUnexpectedEOF)), [])"
proof (induction r arbitrary: acc)
  case Nil
  then have lt: "length acc < m" by simp
  have rd: "Read [] (m - length acc) = (([], Some EOF), [])" by simp
  show ?case using lt by (simp add: ReadFull_loop_err [OF lt rd])
next
  case (Cons x r)
  obtain d e where x: "x = (d, e)" by (cases x)
  with Cons.prems have e: "e = None" and ok: "reader_ok r" by simp_all
  from Cons.prems x have lt: "length acc < m" and dl: "length d \<le> m - length acc" by simp_all
  have rd: "Read ((d, None) # r) (m - length acc) = ((d, None), r)" using dl by simp
  have "ReadFull_loop r m (acc @ d)
       = (((acc @ d) @ reader_data r,
           Some (if (acc @ d) @ reader_data r = [] then EOF else ErrUnexpectedEOF)), [])"
    by (rule Cons.IH [OF ok]) (use Cons.prems x in simp)
  then show ?case by (simp add: ReadFull_loop_more [OF lt rd] x e)
qed

lemma ReadFull_ok_enough:
  assumes "reader_ok r" "m \<le> length (reader_data r)"
  shows "\<exists>r'. ReadFull r m = ((take m (reader_data r), None), r')
            \<and> reader_ok r' \<and> reader_data r' = drop m (reader_data r)"
  using ReadFull_loop_ok_enough [OF assms(1), of "[]" m] assms(2) by (simp add: ReadFull_def)

lemma ReadFull_ok_short:
  assumes "reader_ok r" "length (reader_data r) < m"
  shows "ReadFull r m
      = ((reader_data r, Some (if reader_data r = [] then EOF else ErrUnexpectedEOF)), [])"
  using ReadFull_loop_ok_short [OF assms(1), of "[]" m] assms(2) by (simp add: ReadFull_def)


definition cr_wf :: "aead \<Rightarrow> chunkReader \<Rightarrow> bool" where
  "cr_wf a cr = (cr_aead cr = Some a \<and> length (cr_buf cr) = payloadSizeMask + Overhead a)"

lemma readMessage_short:
  assumes wf: "cr_wf a cr" and ok: "reader_ok (cr_reader cr)"
    and short: "length (reader_data (cr_reader cr)) < n" and n: "n \<le> length (cr_buf cr)"
  shows "\<exists>cr'. readMessage n cr
           = Some (Some (if reader_data (cr_reader cr) = [] then EOF else ErrUnexpectedEOF), cr')
         \<and> cr_wf a cr' \<and> cr_reader cr' = [] \<and> cr_counter cr' = cr_counter cr
         \<and> cr_ssCipher cr' = cr_ssCipher cr"
  using wf n short
  by (simp add: readMessage_def ReadFull_ok_short [OF ok short] cr_wf_def length_blit)

lemma readMessage_open_fails:
  assumes wf: "cr_wf a cr" and ok: "reader_ok (cr_reader cr)"
    and enough: "n \<le> length (reader_data (cr_reader cr))" and n: "n \<le> length (cr_buf cr)"
    and op: "Open a (cr_counter cr) (take n (reader_data (cr_reader cr))) = Inl e"
  shows "\<exists>cr'. readMessage n cr = Some (Some (Errorf ''failed to decrypt'' e), cr')
         \<and> cr_wf a cr' \<and> reader_ok (cr_reader cr')
         \<and> reader_data (cr_reader cr') = drop n (reader_data (cr_reader cr))
         \<and> cr_counter cr' = increment (cr_counter cr) \<and> cr_ssCipher cr' = cr_ssCipher cr"
proof -
  let ?d = "take n (reader_data (cr_reader cr))"
  from ReadFull_ok_enough [OF ok enough] obtain r' where
    rf: "ReadFull (cr_reader cr) n = ((?d, None), r')" and ok': "reader_ok r'"
    and d': "reader_data r' = drop n (reader_data (cr_reader cr))"
    by blast
  have ld: "length ?d = n" using enough by simp
  have sl: "slice (blit (cr_buf cr) 0 ?d) 0 n = ?d"
    by (rule slice_blit_same) (use ld n in simp_all)
  show ?thesis
    using wf n ld ok' d' op
    by (simp add: readMessage_def rf cr_wf_def Let_def sl length_blit)
qed

lemma readMessage_opens:
  assumes wf: "cr_wf a cr" and ok: "reader_ok (cr_reader cr)"
    and enough: "n \<le> length (reader_data (cr_reader cr))" and n: "n \<le> length (cr_buf cr)"
    and op: "Open a (cr_counter cr) (take n (reader_data (cr_reader cr))) = Inr pt"
    and fits: "length pt \<le> n"
  shows "\<exists>cr'. readMessage n cr = Some (None, cr')
         \<and> cr_wf a cr' \<and> reader_ok (cr_reader cr')
         \<and> reader_data (cr_reader cr') = drop n (reader_data (cr_reader cr))
         \<and> cr_counter cr' = increment (cr_counter cr) \<and> cr_ssCipher cr' = cr_ssCipher cr
         \<and> take (length pt) (cr_buf cr') = pt"
proof -
  let ?d = "take n (reader_data (cr_reader cr))"
  from ReadFull_ok_enough [OF ok enough] obtain r' where
    rf: "ReadFull (cr_reader cr) n = ((?d, None), r')" and ok': "reader_ok r'"
    and d': "reader_data r' = drop n (reader_data (cr_reader cr))"
    by blast
  have ld: "length ?d = n" using enough by simp
  have lb: "length (blit (cr_buf cr) 0 ?d) = length (cr_buf cr)"
    by (rule length_blit) (use ld n in simp)
  have sl: "slice (blit (cr_buf cr) 0 ?d) 0 n = ?d"
    by (rule slice_blit_same) (use ld n in simp_all)
  have fit: "length pt \<le> length (cr_buf cr)" using fits n by simp
  have tk: "take (length pt) (blit (blit (cr_buf cr) 0 ?d) 0 pt) = pt"
    by (simp add: blit_def)
  have lb2: "length (blit (blit (cr_buf cr) 0 ?d) 0 pt) = length (cr_buf cr)"
    using length_blit [of 0 pt "blit (cr_buf cr) 0 ?d"] fit lb by simp
  show ?thesis
    using wf ok' d' op fit lb lb2 tk
    by (simp add: readMessage_def rf cr_wf_def Let_def sl)
qed


lemma masked_size_le: "unat ((x :: 16 word) AND of_nat payloadSizeMask) \<le> payloadSizeMask"
proof -
  have "unat (x AND of_nat payloadSizeMask) \<le> unat (of_nat payloadSizeMask :: 16 word)"
    by (rule word_and_le1 [THEN word_le_nat_alt [THEN iffD1]])
  then show ?thesis by (simp add: payloadSizeMask_def)
qed

lemma Uint16_slice:
  assumes "take 2 buf = pt" "length pt = 2"
  shows "Uint16 (slice buf 0 (2 + k)) = Uint16 pt"
proof -
  from assms have l: "2 \<le> length buf" by (metis length_take min.cobounded1 min_def order_refl linorder_le_cases take_all)
  have "slice buf 0 (2 + k) ! 0 = pt ! 0" "slice buf 0 (2 + k) ! 1 = pt ! 1"
    using assms(1) [symmetric] l by (simp_all add: slice_def)
  then show ?thesis by (simp add: Uint16_def)
qed

lemma cr_init_done: "cr_wf a cr \<Longrightarrow> cr_init cr = (None, cr)"
  by (simp add: cr_init_def cr_wf_def)

lemma ReadChunk_at_end:
  assumes wf: "cr_wf a cr" and ok: "reader_ok (cr_reader cr)"
    and short: "length (reader_data (cr_reader cr)) < 2 + Overhead a"
  shows "\<exists>cr'. ReadChunk cr
           = Some (Inl (if reader_data (cr_reader cr) = [] then EOF else ErrUnexpectedEOF), cr')
         \<and> cr_wf a cr' \<and> cr_reader cr' = []"
proof -
  have n: "2 + Overhead a \<le> length (cr_buf cr)"
    using wf by (simp add: cr_wf_def payloadSizeMask_def)
  from readMessage_short [OF wf ok short n] obtain cr' where
    "readMessage (2 + Overhead a) cr
       = Some (Some (if reader_data (cr_reader cr) = [] then EOF else ErrUnexpectedEOF), cr')"
    "cr_wf a cr'" "cr_reader cr' = []"
    by blast
  with wf n show ?thesis
    by (simp add: ReadChunk_def cr_init_done [OF wf] cr_wf_def)
qed

lemma ReadChunk_payload_cut:
  assumes wf: "cr_wf a cr" and ok: "reader_ok (cr_reader cr)"
    and enough: "2 + Overhead a \<le> length (reader_data (cr_reader cr))"
    and op: "Open a (cr_counter cr) (take (2 + Overhead a) (reader_data (cr_reader cr))) = Inr pt"
    and pt: "length pt = 2"
    and cut: "length (reader_data (cr_reader cr)) - (2 + Overhead a)
                < unat (Uint16 pt AND of_nat payloadSizeMask) + Overhead a"
  shows "\<exists>cr'. ReadChunk cr = Some (Inl ErrUnexpectedEOF, cr') \<and> cr_wf a cr' \<and> cr_reader cr' = []"
proof -
  let ?n = "unat (Uint16 pt AND of_nat payloadSizeMask)"
  have n: "2 + Overhead a \<le> length (cr_buf cr)"
    using wf by (simp add: cr_wf_def payloadSizeMask_def)
  from readMessage_opens [OF wf ok enough n op] pt obtain cr1 where
    m1: "readMessage (2 + Overhead a) cr = Some (None, cr1)"
    and wf1: "cr_wf a cr1" and ok1: "reader_ok (cr_reader cr1)"
    and d1: "reader_data (cr_reader cr1) = drop (2 + Overhead a) (reader_data (cr_reader cr))"
    and b1: "take 2 (cr_buf cr1) = pt"
    by auto
  have sz: "Uint16 (slice (cr_buf cr1) 0 (2 + Overhead a)) = Uint16 pt"
    using Uint16_slice [OF b1 pt] .
  have n2: "?n + Overhead a \<le> length (cr_buf cr1)"
    using wf1 masked_size_le [of "Uint16 pt"] by (simp add: cr_wf_def)
  have short: "length (reader_data (cr_reader cr1)) < ?n + Overhead a"
    using cut d1 by simp
  from readMessage_short [OF wf1 ok1 short n2] obtain cr' where
    "readMessage (?n + Overhead a) cr1
       = Some (Some (if reader_data (cr_reader cr1) = [] then EOF else ErrUnexpectedEOF), cr')"
    "cr_wf a cr'" "cr_reader cr' = []"
    by blast
  with wf n m1 sz n2 show ?thesis
    by (simp add: ReadChunk_def cr_init_done [OF wf] cr_wf_def Let_def)
qed

lemma ReadChunk_accepts:
  assumes wf: "cr_wf a cr" and ok: "reader_ok (cr_reader cr)"
    and enough: "2 + Overhead a \<le> length (reader_data (cr_reader cr))"
    and op: "Open a (cr_counter cr) (take (2 + Overhead a) (reader_data (cr_reader cr))) = Inr pt"
    and pt: "length pt = 2"
    and n: "n = unat (Uint16 pt AND of_nat payloadSizeMask)"
    and enough2: "n + Overhead a \<le> length (reader_data (cr_reader cr)) - (2 + Overhead a)"
    and op2: "Open a (increment (cr_counter cr))
                (take (n + Overhead a) (drop (2 + Overhead a) (reader_data (cr_reader cr)))) = Inr p"
    and p: "length p = n"
  shows "\<exists>cr'. ReadChunk cr = Some (Inr (0, n), cr')
         \<and> cr_wf a cr' \<and> reader_ok (cr_reader cr')
         \<and> reader_data (cr_reader cr')
             = drop (n + Overhead a) (drop (2 + Overhead a) (reader_data (cr_reader cr)))
         \<and> cr_counter cr' = increment (increment (cr_counter cr))
         \<and> cr_ssCipher cr' = cr_ssCipher cr
         \<and> slice (cr_buf cr') 0 n = p"
proof -
  have l: "2 + Overhead a \<le> length (cr_buf cr)"
    using wf by (simp add: cr_wf_def payloadSizeMask_def)
  from readMessage_opens [OF wf ok enough l op] pt obtain cr1 where
    m1: "readMessage (2 + Overhead a) cr = Some (None, cr1)"
    and wf1: "cr_wf a cr1" and ok1: "reader_ok (cr_reader cr1)"
    and d1: "reader_data (cr_reader cr1) = drop (2 + Overhead a) (reader_data (cr_reader cr))"
    and c1: "cr_counter cr1 = increment (cr_counter cr)"
    and s1: "cr_ssCipher cr1 = cr_ssCipher cr"
    and b1: "take 2 (cr_buf cr1) = pt"
    by auto
  have sz: "Uint16 (slice (cr_buf cr1) 0 (2 + Overhead a)) = Uint16 pt"
    using Uint16_slice [OF b1 pt] .
  have n2: "n + Overhead a \<le> length (cr_buf cr1)"
    using wf1 masked_size_le [of "Uint16 pt"] n by (simp add: cr_wf_def)
  have e2: "n + Overhead a \<le> length (reader_data (cr_reader cr1))"
    using enough2 d1 by simp
  have o2: "Open a (cr_counter cr1) (take (n + Overhead a) (reader_data (cr_reader cr1))) = Inr p"
    using op2 c1 d1 by simp
  from readMessage_opens [OF wf1 ok1 e2 n2 o2] p obtain cr' where
    m2: "readMessage (n + Overhead a) cr1 = Some (None, cr')"
    and r: "cr_wf a cr'" "reader_ok (cr_reader cr')"
      "reader_data (cr_reader cr') = drop (n + Overhead a) (reader_data (cr_reader cr1))"
      "cr_counter cr' = increment (cr_counter cr1)" "cr_ssCipher cr' = cr_ssCipher cr1"
      "take n (cr_buf cr') = p"
    by auto
  have "ReadChunk cr = Some (Inr (0, n), cr')"
    using wf l m1 sz n2 m2 n
    by (simp add: ReadChunk_def cr_init_done [OF wf] cr_wf_def Let_def)
  with r d1 c1 s1 show ?thesis by (simp add: slice_def)
qed

section \<open>The reader: end of stream, and the length field\<close>

text \<open>
  What \<open>init\<close> establishes and every method keeps: once the AEAD is set, \<open>cr.buf\<close>
  has room for the largest payload and its tag.
\<close>

definition cr_inv :: "chunkReader \<Rightarrow> bool" where
  "cr_inv cr = (case cr_aead cr of
                  None \<Rightarrow> True
                | Some a \<Rightarrow> length (cr_buf cr) = payloadSizeMask + Overhead a)"

lemma cr_inv_New: "cr_inv (rc_cr (NewShadowsocksReader r c))"
  by (simp add: cr_inv_def NewShadowsocksReader_def)

lemma cr_inv_wf: "cr_wf a cr \<Longrightarrow> cr_inv cr"
  by (simp add: cr_inv_def cr_wf_def)

lemma cr_inv_cases:
  assumes "cr_inv cr"
  obtains (fresh) "cr_aead cr = None" | (ready) a where "cr_wf a cr"
  using assms by (cases "cr_aead cr") (auto simp: cr_inv_def cr_wf_def)

lemma cr_init_fresh_short:
  assumes "cr_aead cr = None" "reader_ok (cr_reader cr)"
    "length (reader_data (cr_reader cr)) < SaltSize (cr_ssCipher cr)"
  shows "cr_init cr
           = (Some (if reader_data (cr_reader cr) = [] then EOF else ErrUnexpectedEOF),
              cr\<lparr>cr_reader := []\<rparr>)"
  using assms ReadFull_ok_short [OF assms(2,3)] by (simp add: cr_init_def)

lemma cr_init_fresh_opens:
  assumes "cr_aead cr = None" "reader_ok (cr_reader cr)"
    "SaltSize (cr_ssCipher cr) \<le> length (reader_data (cr_reader cr))"
    "Decrypter (cr_ssCipher cr) (take (SaltSize (cr_ssCipher cr)) (reader_data (cr_reader cr)))
       = Inr a"
  shows "\<exists>cr0. cr_init cr = (None, cr0) \<and> cr_wf a cr0 \<and> reader_ok (cr_reader cr0)
           \<and> reader_data (cr_reader cr0)
               = drop (SaltSize (cr_ssCipher cr)) (reader_data (cr_reader cr))
           \<and> cr_counter cr0 = replicate (NonceSize a) 0
           \<and> cr_ssCipher cr0 = cr_ssCipher cr"
proof -
  from ReadFull_ok_enough [OF assms(2,3)] obtain r' where
    "ReadFull (cr_reader cr) (SaltSize (cr_ssCipher cr))
       = ((take (SaltSize (cr_ssCipher cr)) (reader_data (cr_reader cr)), None), r')"
    "reader_ok r'"
    "reader_data r' = drop (SaltSize (cr_ssCipher cr)) (reader_data (cr_reader cr))"
    by blast
  with assms(1,4) show ?thesis by (simp add: cr_init_def cr_wf_def)
qed

lemma cr_init_None:
  assumes "cr_inv cr" "reader_ok (cr_reader cr)" "cr_init cr = (None, cr0)"
  shows "\<exists>a. cr_wf a cr0 \<and> reader_ok (cr_reader cr0)
           \<and> (cr_aead cr = None \<longrightarrow>
                SaltSize (cr_ssCipher cr) \<le> length (reader_data (cr_reader cr))
                \<and> reader_data (cr_reader cr0)
                    = drop (SaltSize (cr_ssCipher cr)) (reader_data (cr_reader cr)))
           \<and> (cr_aead cr \<noteq> None \<longrightarrow> cr0 = cr)"
  using assms(1)
proof (cases rule: cr_inv_cases)
  case fresh
  show ?thesis
  proof (cases "length (reader_data (cr_reader cr)) < SaltSize (cr_ssCipher cr)")
    case True
    from cr_init_fresh_short [OF fresh assms(2) True] assms(3) show ?thesis by simp
  next
    case False
    then have le: "SaltSize (cr_ssCipher cr) \<le> length (reader_data (cr_reader cr))" by simp
    from ReadFull_ok_enough [OF assms(2) le] obtain r' where
      rf: "ReadFull (cr_reader cr) (SaltSize (cr_ssCipher cr))
         = ((take (SaltSize (cr_ssCipher cr)) (reader_data (cr_reader cr)), None), r')"
      by blast
    from assms(3) fresh rf obtain a where
      "Decrypter (cr_ssCipher cr) (take (SaltSize (cr_ssCipher cr)) (reader_data (cr_reader cr)))
         = Inr a"
      by (auto simp: cr_init_def split: sum.splits)
    from cr_init_fresh_opens [OF fresh assms(2) le this] assms(3) fresh le show ?thesis
      by auto
  qed
next
  case (ready a)
  with assms(2,3) show ?thesis by (auto simp: cr_init_done cr_wf_def)
qed

lemma ReadChunk_init:
  "cr_init cr = (None, cr0) \<Longrightarrow> cr_wf a cr0 \<Longrightarrow> ReadChunk cr = ReadChunk cr0"
  by (simp add: ReadChunk_def cr_init_done)

lemma Errorf_neq [simp]:
  "Errorf m e \<noteq> EOF" "Errorf m e \<noteq> ErrUnexpectedEOF" "Errorf m e \<noteq> ErrShortBuffer"
  by (simp_all add: Errorf_def)

lemma readMessage_EOF:
  assumes "readMessage n cr = Some (Some EOF, cr1)"
  shows "\<exists>d r. ReadFull (cr_reader cr) n = ((d, Some EOF), r)"
  using assms
  by (auto simp: readMessage_def Let_def split: prod.splits option.splits sum.splits)

lemma readMessage_EOF_ok:
  assumes "readMessage n cr = Some (Some EOF, cr1)" "reader_ok (cr_reader cr)"
  shows "reader_data (cr_reader cr) = []"
proof -
  from readMessage_EOF [OF assms(1)] obtain d r where
    rf: "ReadFull (cr_reader cr) n = ((d, Some EOF), r)" by blast
  show ?thesis
  proof (cases "n \<le> length (reader_data (cr_reader cr))")
    case True
    from ReadFull_ok_enough [OF assms(2) True] rf show ?thesis by auto
  next
    case False
    then have "length (reader_data (cr_reader cr)) < n" by simp
    from ReadFull_ok_short [OF assms(2) this] rf show ?thesis
      by (auto split: if_splits)
  qed
qed

lemma ReadChunk_EOF_ready:
  assumes "cr_wf a cr" "ReadChunk cr = Some (Inl EOF, cr')"
  shows "\<exists>cr1. readMessage (2 + Overhead a) cr = Some (Some EOF, cr1)"
  using assms
  by (auto simp: ReadChunk_def cr_init_done cr_wf_def Let_def
           split: option.splits prod.splits if_splits)

text \<open>
  C3. The stream below the chunk reader delivers its bytes and then reports
  \<open>io.EOF\<close>. \<open>ReadChunk\<close> returns \<open>io.EOF\<close> only when no byte was left at
  the call, or when a new reader found exactly the salt and nothing after it (the
  stream ended before the first chunk); and it does return \<open>io.EOF\<close> when no byte
  was left at the call (for a new reader, when its salt is not empty). When the
  stream ends inside the salt, inside the length block, or after a length block
  and before the end of its payload, \<open>ReadChunk\<close> returns
  \<open>io.ErrUnexpectedEOF\<close>. Here \<open>cr0\<close> is the chunk reader when \<open>init\<close> has
  returned: the reader itself if it was initialised before, and the reader past
  the salt otherwise.
\<close>

theorem clean_EOF_only_between_chunks:
  assumes inv: "cr_inv cr" and ok: "reader_ok (cr_reader cr)"
    and rc: "ReadChunk cr = Some (res, cr')"
  shows "(res = Inl EOF \<longrightarrow>
            reader_data (cr_reader cr) = []
            \<or> (cr_aead cr = None
               \<and> length (reader_data (cr_reader cr)) = SaltSize (cr_ssCipher cr)))
       \<and> (reader_data (cr_reader cr) = []
            \<and> (cr_aead cr = None \<longrightarrow> 0 < SaltSize (cr_ssCipher cr))
          \<longrightarrow> res = Inl EOF)
       \<and> (cr_aead cr = None \<and> 0 < length (reader_data (cr_reader cr))
            \<and> length (reader_data (cr_reader cr)) < SaltSize (cr_ssCipher cr)
          \<longrightarrow> res = Inl ErrUnexpectedEOF)
       \<and> (\<forall>cr0 a. cr_init cr = (None, cr0) \<and> cr_aead cr0 = Some a \<longrightarrow>
            (0 < length (reader_data (cr_reader cr0))
               \<and> length (reader_data (cr_reader cr0)) < 2 + Overhead a
             \<longrightarrow> res = Inl ErrUnexpectedEOF)
          \<and> (\<forall>pt. 2 + Overhead a \<le> length (reader_data (cr_reader cr0))
                \<and> Open a (cr_counter cr0) (take (2 + Overhead a) (reader_data (cr_reader cr0)))
                    = Inr pt
                \<and> length pt = 2
                \<and> length (reader_data (cr_reader cr0)) - (2 + Overhead a)
                    < unat (Uint16 pt AND of_nat payloadSizeMask) + Overhead a
              \<longrightarrow> res = Inl ErrUnexpectedEOF))"
proof (intro conjI impI allI)
  assume eof: "res = Inl EOF"
  show "reader_data (cr_reader cr) = []
        \<or> (cr_aead cr = None
           \<and> length (reader_data (cr_reader cr)) = SaltSize (cr_ssCipher cr))"
  proof (cases "cr_init cr")
    case (Pair e cr0)
    show ?thesis
    proof (cases e)
      case None
      from cr_init_None [OF inv ok Pair [unfolded None]] obtain a where
        wf0: "cr_wf a cr0" and ok0: "reader_ok (cr_reader cr0)"
        and f: "cr_aead cr = None \<longrightarrow>
                SaltSize (cr_ssCipher cr) \<le> length (reader_data (cr_reader cr))
                \<and> reader_data (cr_reader cr0)
                    = drop (SaltSize (cr_ssCipher cr)) (reader_data (cr_reader cr))"
        and g: "cr_aead cr \<noteq> None \<longrightarrow> cr0 = cr"
        by (elim exE conjE)
      have "ReadChunk cr0 = Some (Inl EOF, cr')"
        using ReadChunk_init [OF Pair [unfolded None] wf0] rc eof by simp
      from ReadChunk_EOF_ready [OF wf0 this] obtain cr1 where
        "readMessage (2 + Overhead a) cr0 = Some (Some EOF, cr1)" by blast
      from readMessage_EOF_ok [OF this ok0] have "reader_data (cr_reader cr0) = []" .
      with f g show ?thesis by (cases "cr_aead cr") auto
    next
      case (Some err)
      with Pair rc eof have e: "err = EOF" by (simp add: ReadChunk_def)
      from inv show ?thesis
      proof (cases rule: cr_inv_cases)
        case fresh
        show ?thesis
        proof (cases "length (reader_data (cr_reader cr)) < SaltSize (cr_ssCipher cr)")
          case True
          from cr_init_fresh_short [OF fresh ok True] Pair Some e show ?thesis
            by (auto split: if_splits)
        next
          case False
          then have le: "SaltSize (cr_ssCipher cr) \<le> length (reader_data (cr_reader cr))"
            by simp
          from ReadFull_ok_enough [OF ok le] Pair Some e fresh show ?thesis
            by (auto simp: cr_init_def split: sum.splits)
        qed
      next
        case (ready a)
        with Pair Some show ?thesis by (simp add: cr_init_done)
      qed
    qed
  qed
next
  assume e: "reader_data (cr_reader cr) = []
            \<and> (cr_aead cr = None \<longrightarrow> 0 < SaltSize (cr_ssCipher cr))"
  from inv show "res = Inl EOF"
  proof (cases rule: cr_inv_cases)
    case fresh
    from cr_init_fresh_short [OF fresh ok] e fresh rc show ?thesis
      by (simp add: ReadChunk_def)
  next
    case (ready a)
    from ReadChunk_at_end [OF ready ok] e rc show ?thesis by auto
  qed
next
  assume a: "cr_aead cr = None \<and> 0 < length (reader_data (cr_reader cr))
            \<and> length (reader_data (cr_reader cr)) < SaltSize (cr_ssCipher cr)"
  from cr_init_fresh_short [of cr] a ok rc show "res = Inl ErrUnexpectedEOF"
    by (simp add: ReadChunk_def)
next
  fix cr0 a
  assume a: "cr_init cr = (None, cr0) \<and> cr_aead cr0 = Some a"
  from cr_init_None [OF inv ok a [THEN conjunct1]] a
  have wf0: "cr_wf a cr0" and ok0: "reader_ok (cr_reader cr0)"
    by (auto simp: cr_wf_def)
  have rc0: "ReadChunk cr0 = Some (res, cr')"
    using ReadChunk_init [OF a [THEN conjunct1] wf0] rc by simp
  {
    assume b: "0 < length (reader_data (cr_reader cr0))
               \<and> length (reader_data (cr_reader cr0)) < 2 + Overhead a"
    from ReadChunk_at_end [OF wf0 ok0 b [THEN conjunct2]] b rc0
    show "res = Inl ErrUnexpectedEOF" by auto
  }
  {
    fix pt
    assume b: "2 + Overhead a \<le> length (reader_data (cr_reader cr0))
                \<and> Open a (cr_counter cr0) (take (2 + Overhead a) (reader_data (cr_reader cr0)))
                    = Inr pt
                \<and> length pt = 2
                \<and> length (reader_data (cr_reader cr0)) - (2 + Overhead a)
                    < unat (Uint16 pt AND of_nat payloadSizeMask) + Overhead a"
    from ReadChunk_payload_cut [OF wf0 ok0, of pt] b rc0
    show "res = Inl ErrUnexpectedEOF" by auto
  }
qed


text \<open>A new reader over a stream that delivers \<open>d\<close> at once, then ends.\<close>

definition testChunkReader :: "bytes \<Rightarrow> chunkReader" where
  "testChunkReader d = rc_cr (NewShadowsocksReader [(d, None)] testCipher)"

lemmas reader_eval_defs = testChunkReader_def NewShadowsocksReader_def ReadChunk_def cr_init_def
  readMessage_def ReadFull_def ReadFull_loop.simps testCipher_def testAEAD_def testTag_def
  payloadSizeMask_def Let_def blit_def slice_def Uint16_def replicate_12

lemma test_cut_payload:
  "\<exists>cr'. ReadChunk (testChunkReader [7, 9, 0, 3, 19, 1, 2]) = Some (Inl ErrUnexpectedEOF, cr')"
  by (simp add: reader_eval_defs)

lemma test_only_salt:
  "\<exists>cr'. ReadChunk (testChunkReader [7, 9]) = Some (Inl EOF, cr')"
  by (simp add: reader_eval_defs)

lemma test_full_chunk:
  "\<exists>cr'. ReadChunk (testChunkReader [7, 9, 0, 3, 19, 1, 2, 3, 23]) = Some (Inr (0, 3), cr')
     \<and> slice (cr_buf cr') 0 3 = [1, 2, 3] \<and> cr_reader cr' = []"
  by (simp add: reader_eval_defs)

lemma test_top_bits:
  "\<exists>cr'. ReadChunk (testChunkReader [7, 9, 192, 1, 209, 5, 22]) = Some (Inr (0, 1), cr')
     \<and> slice (cr_buf cr') 0 1 = [5] \<and> cr_reader cr' = []"
  by (simp add: reader_eval_defs)

lemma test_zero_len:
  "\<exists>cr'. ReadChunk (testChunkReader [7, 9, 0, 0, 16, 17]) = Some (Inr (0, 0), cr')
     \<and> cr_reader cr' = []"
  by (simp add: reader_eval_defs)


lemma cr_inv_test: "cr_inv (testChunkReader d)"
  unfolding testChunkReader_def by (rule cr_inv_New)

lemma reader_ok_test: "reader_ok (cr_reader (testChunkReader d))"
  by (simp add: testChunkReader_def NewShadowsocksReader_def)

lemma test_cut_init:
  "\<exists>cr0. cr_init (testChunkReader [7, 9, 0, 3, 19, 1, 2]) = (None, cr0)
      \<and> cr_aead cr0 = Some (testAEAD [7, 9])
      \<and> reader_data (cr_reader cr0) = [0, 3, 19, 1, 2]
      \<and> cr_counter cr0 = replicate 12 0"
  by (simp add: reader_eval_defs)

theorem clean_EOF_only_between_chunks_witness:
  "(\<exists>cr'. ReadChunk (testChunkReader [7, 9]) = Some (Inl EOF, cr'))
   \<and> cr_aead (testChunkReader [7, 9]) = None
   \<and> length (reader_data (cr_reader (testChunkReader [7, 9])))
       = SaltSize (cr_ssCipher (testChunkReader [7, 9]))
   \<and> (\<exists>cr0. cr_init (testChunkReader [7, 9, 0, 3, 19, 1, 2]) = (None, cr0)
         \<and> cr_aead cr0 = Some (testAEAD [7, 9])
         \<and> reader_data (cr_reader cr0) = [0, 3, 19, 1, 2]
         \<and> Open (testAEAD [7, 9]) (cr_counter cr0) [0, 3, 19] = Inr [0, 3])
   \<and> (\<exists>cr'. ReadChunk (testChunkReader [7, 9, 0, 3, 19, 1, 2]) = Some (Inl ErrUnexpectedEOF, cr'))"
proof -
  let ?one = "testChunkReader [7, 9]" and ?two = "testChunkReader [7, 9, 0, 3, 19, 1, 2]"
  from test_only_salt obtain cr1 where r1: "ReadChunk ?one = Some (Inl EOF, cr1)" by blast
  from clean_EOF_only_between_chunks [OF cr_inv_test reader_ok_test r1]
  have "reader_data (cr_reader ?one) = []
        \<or> cr_aead ?one = None
          \<and> length (reader_data (cr_reader ?one)) = SaltSize (cr_ssCipher ?one)"
    by simp
  moreover have "reader_data (cr_reader ?one) \<noteq> []"
    by (simp add: testChunkReader_def NewShadowsocksReader_def)
  ultimately have one: "cr_aead ?one = None
     \<and> length (reader_data (cr_reader ?one)) = SaltSize (cr_ssCipher ?one)"
    by simp
  from test_cut_init obtain cr0 where
    i: "cr_init ?two = (None, cr0)" and a: "cr_aead cr0 = Some (testAEAD [7, 9])"
    and d: "reader_data (cr_reader cr0) = [0, 3, 19, 1, 2]"
    and c: "cr_counter cr0 = replicate 12 0"
    by blast
  have op: "Open (testAEAD [7, 9]) (cr_counter cr0) [0, 3, 19] = Inr [0, 3]"
    by (simp add: c testAEAD_def testTag_def replicate_12)
  from test_cut_payload obtain res cr2 where r2: "ReadChunk ?two = Some (res, cr2)" by blast
  have cut: "2 + Overhead (testAEAD [7, 9]) \<le> length (reader_data (cr_reader cr0))
      \<and> Open (testAEAD [7, 9]) (cr_counter cr0)
          (take (2 + Overhead (testAEAD [7, 9])) (reader_data (cr_reader cr0))) = Inr [0, 3]
      \<and> length [0 :: byte, 3] = 2
      \<and> length (reader_data (cr_reader cr0)) - (2 + Overhead (testAEAD [7, 9]))
          < unat (Uint16 [0, 3] AND of_nat payloadSizeMask) + Overhead (testAEAD [7, 9])"
    using op by (simp add: d testAEAD_def Uint16_def payloadSizeMask_def)
  from clean_EOF_only_between_chunks [OF cr_inv_test reader_ok_test r2] i a cut
  have "res = Inl ErrUnexpectedEOF" by blast
  with r2 have two: "\<exists>cr'. ReadChunk ?two = Some (Inl ErrUnexpectedEOF, cr')" by simp
  from r1 one i a d op two show ?thesis by blast
qed

lemma mask_3FFF: "(x :: 16 word) AND of_nat payloadSizeMask = take_bit 14 x"
  by (simp add: payloadSizeMask_def take_bit_eq_mask mask_eq_exp_minus_1)

lemma masked_size_mod:
  "unat ((x :: 16 word) AND of_nat payloadSizeMask) = unat x mod 16384"
proof -
  have "unat (take_bit 14 x) = take_bit 14 (unat x)" by (rule unsigned_take_bit_eq)
  then show ?thesis by (simp only: mask_3FFF) (simp add: take_bit_eq_mod)
qed


text \<open>
  C2, as the code has it. \<open>ReadChunk\<close> takes the low 14 bits of the opened length
  field \<open>L\<close> as the payload size and tests nothing else about \<open>L\<close>: when the
  next \<open>L mod 16384\<close> bytes and their tag open, they are the chunk it returns,
  whatever the top two bits of \<open>L\<close> are and also when the size is zero.
\<close>

theorem ReadChunk_masks_length:
  assumes inv: "cr_inv cr" and ok: "reader_ok (cr_reader cr)"
    and init: "cr_init cr = (None, cr0)" and a: "cr_aead cr0 = Some a"
    and enough: "2 + Overhead a \<le> length (reader_data (cr_reader cr0))"
    and op: "Open a (cr_counter cr0) (take (2 + Overhead a) (reader_data (cr_reader cr0)))
               = Inr pt"
    and pt: "length pt = 2"
    and n: "n = unat (Uint16 pt) mod 16384"
    and enough2: "n + Overhead a \<le> length (reader_data (cr_reader cr0)) - (2 + Overhead a)"
    and op2: "Open a (increment (cr_counter cr0))
                (take (n + Overhead a) (drop (2 + Overhead a) (reader_data (cr_reader cr0))))
                = Inr p"
    and p: "length p = n"
  shows "\<exists>cr'. ReadChunk cr = Some (Inr (0, n), cr')
           \<and> slice (cr_buf cr') 0 n = p
           \<and> reader_data (cr_reader cr')
               = drop (n + Overhead a) (drop (2 + Overhead a) (reader_data (cr_reader cr0)))
           \<and> cr_counter cr' = increment (increment (cr_counter cr0))"
proof -
  from cr_init_None [OF inv ok init] a
  have wf0: "cr_wf a cr0" and ok0: "reader_ok (cr_reader cr0)"
    by (auto simp: cr_wf_def)
  have n': "n = unat (Uint16 pt AND of_nat payloadSizeMask)"
    using n by (simp add: masked_size_mod)
  from ReadChunk_accepts [OF wf0 ok0 enough op pt n' enough2 op2 p]
    ReadChunk_init [OF init wf0]
  show ?thesis by auto
qed

lemma test_top_bits_init:
  "\<exists>cr0. cr_init (testChunkReader [7, 9, 192, 1, 209, 5, 22]) = (None, cr0)
      \<and> cr_aead cr0 = Some (testAEAD [7, 9])
      \<and> reader_data (cr_reader cr0) = [192, 1, 209, 5, 22]
      \<and> cr_counter cr0 = replicate 12 0"
  by (simp add: reader_eval_defs)

theorem ReadChunk_masks_length_witness:
  "\<exists>cr0 cr'. cr_init (testChunkReader [7, 9, 192, 1, 209, 5, 22]) = (None, cr0)
      \<and> cr_aead cr0 = Some (testAEAD [7, 9])
      \<and> reader_data (cr_reader cr0) = [192, 1, 209, 5, 22]
      \<and> Open (testAEAD [7, 9]) (cr_counter cr0) [192, 1, 209] = Inr [192, 1]
      \<and> Uint16 [192, 1] = 0xC001
      \<and> Open (testAEAD [7, 9]) (increment (cr_counter cr0)) [5, 22] = Inr [5]
      \<and> ReadChunk (testChunkReader [7, 9, 192, 1, 209, 5, 22]) = Some (Inr (0, 1), cr')
      \<and> slice (cr_buf cr') 0 1 = [5]
      \<and> reader_data (cr_reader cr') = []"
proof -
  let ?cr = "testChunkReader [7, 9, 192, 1, 209, 5, 22]"
  from test_top_bits_init obtain cr0 where
    i: "cr_init ?cr = (None, cr0)" and a: "cr_aead cr0 = Some (testAEAD [7, 9])"
    and d: "reader_data (cr_reader cr0) = [192, 1, 209, 5, 22]"
    and c: "cr_counter cr0 = replicate 12 0"
    by blast
  have u: "Uint16 [192, 1] = 0xC001" by (simp add: Uint16_def)
  have op: "Open (testAEAD [7, 9]) (cr_counter cr0) [192, 1, 209] = Inr [192, 1]"
    by (simp add: c testAEAD_def testTag_def replicate_12)
  have op2: "Open (testAEAD [7, 9]) (increment (cr_counter cr0)) [5, 22] = Inr [5]"
    by (simp add: c testAEAD_def testTag_def replicate_12)
  have n: "(1 :: nat) = unat (Uint16 [192, 1]) mod 16384" by (simp add: u)
  have ov: "Overhead (testAEAD [7, 9]) = 1" by (simp add: testAEAD_def)
  from ReadChunk_masks_length [OF cr_inv_test reader_ok_test i a _ _ _ n, of "[5]"] op op2
  obtain cr' where "ReadChunk ?cr = Some (Inr (0, 1), cr')" "slice (cr_buf cr') 0 1 = [5]"
    "reader_data (cr_reader cr') = []"
    by (auto simp: d ov)
  with i a d op u op2 show ?thesis by blast
qed

text \<open>
  The claim as stated fails on a length field with the top two bits set, and on a
  length field of zero: the first stream holds the length \<open>0xC001\<close> and is read as a
  chunk of one byte, the second holds the length \<open>0\<close> and is read as an empty chunk.
\<close>

theorem ReadChunk_accepts_bad_length:
  "map_option fst (ReadChunk (testChunkReader [7, 9, 192, 1, 209, 5, 22])) = Some (Inr (0, 1))
   \<and> map_option (take 1 \<circ> cr_buf \<circ> snd) (ReadChunk (testChunkReader [7, 9, 192, 1, 209, 5, 22]))
       = Some [5]
   \<and> map_option fst (ReadChunk (testChunkReader [7, 9, 0, 0, 16, 17])) = Some (Inr (0, 0))
   \<and> Open (testAEAD [7, 9]) (replicate 12 0) [192, 1, 209] = Inr [192, 1]
   \<and> Open (testAEAD [7, 9]) (replicate 12 0) [0, 0, 16] = Inr [0, 0]
   \<and> Uint16 [192, 1] AND 0xC000 \<noteq> 0
   \<and> Uint16 [0, 0] = 0"
  by (simp add: reader_eval_defs)

section \<open>The round trip\<close>

text \<open>
  What the reader needs of an AEAD: \<open>Open\<close> gives back what \<open>Seal\<close> was given,
  under the same nonce. \<open>enc a n ps\<close> is the stream of the chunks with payloads
  \<open>ps\<close>, sealed from the nonce \<open>n\<close> on.
\<close>

definition aead_inverts :: "aead \<Rightarrow> bool" where
  "aead_inverts a = (\<forall>n p. length n = NonceSize a \<longrightarrow> Open a n (Seal a n p) = Inr p)"

fun enc :: "aead \<Rightarrow> bytes \<Rightarrow> bytes list \<Rightarrow> bytes" where
  "enc a n [] = []"
| "enc a n (p # ps) =
     Seal a n (PutUint16 (of_nat (length p))) @ Seal a (increment n) p
     @ enc a (increment (increment n)) ps"

lemma masked_size_id:
  assumes "L \<le> payloadSizeMask"
  shows "unat ((of_nat L :: 16 word) AND of_nat payloadSizeMask) = L"
  using assms by (simp add: masked_size_mod unat_of_nat_len) (simp add: payloadSizeMask_def)

lemma ReadChunk_enc:
  assumes wf: "cr_wf a cr" and ok: "reader_ok (cr_reader cr)"
    and ao: "aead_ok a" and ai: "aead_inverts a"
    and cl: "length (cr_counter cr) = NonceSize a"
    and d: "reader_data (cr_reader cr) = enc a (cr_counter cr) (p # ps)"
    and lp: "length p \<le> payloadSizeMask"
  shows "\<exists>cr'. ReadChunk cr = Some (Inr (0, length p), cr')
           \<and> cr_wf a cr' \<and> reader_ok (cr_reader cr')
           \<and> reader_data (cr_reader cr') = enc a (cr_counter cr') ps
           \<and> length (cr_counter cr') = NonceSize a
           \<and> cr_ssCipher cr' = cr_ssCipher cr
           \<and> slice (cr_buf cr') 0 (length p) = p"
proof -
  let ?pt = "PutUint16 (of_nat (length p))"
  let ?c = "cr_counter cr"
  let ?s1 = "Seal a ?c ?pt" and ?s2 = "Seal a (increment ?c) p"
  let ?rest = "enc a (increment (increment ?c)) ps"
  have l1: "length ?s1 = 2 + Overhead a" using ao by (simp add: aead_ok_def)
  have l2: "length ?s2 = length p + Overhead a" using ao by (simp add: aead_ok_def)
  have dd: "reader_data (cr_reader cr) = ?s1 @ ?s2 @ ?rest" using d by simp
  have enough: "2 + Overhead a \<le> length (reader_data (cr_reader cr))"
    using l1 by (simp add: dd)
  have t1: "take (2 + Overhead a) (reader_data (cr_reader cr)) = ?s1"
    using l1 by (simp add: dd)
  have d1: "drop (2 + Overhead a) (reader_data (cr_reader cr)) = ?s2 @ ?rest"
    using l1 by (simp add: dd)
  have op: "Open a ?c (take (2 + Overhead a) (reader_data (cr_reader cr))) = Inr ?pt"
    using ai cl by (simp only: t1) (simp add: aead_inverts_def)
  have n: "length p = unat (Uint16 ?pt AND of_nat payloadSizeMask)"
    using masked_size_id [OF lp] by simp
  have enough2: "length p + Overhead a \<le> length (reader_data (cr_reader cr)) - (2 + Overhead a)"
    using l1 l2 by (simp add: dd)
  have t2: "take (length p + Overhead a) (drop (2 + Overhead a) (reader_data (cr_reader cr))) = ?s2"
    using l2 by (simp only: d1) simp
  have op2: "Open a (increment ?c)
      (take (length p + Overhead a) (drop (2 + Overhead a) (reader_data (cr_reader cr)))) = Inr p"
    using ai cl by (simp only: t2) (simp add: aead_inverts_def)
  from ReadChunk_accepts [OF wf ok enough op _ n enough2 op2 refl]
  obtain cr' where r: "ReadChunk cr = Some (Inr (0, length p), cr')"
    "cr_wf a cr'" "reader_ok (cr_reader cr')"
    "reader_data (cr_reader cr')
       = drop (length p + Overhead a) (drop (2 + Overhead a) (reader_data (cr_reader cr)))"
    "cr_counter cr' = increment (increment ?c)" "cr_ssCipher cr' = cr_ssCipher cr"
    "slice (cr_buf cr') 0 (length p) = p"
    by auto
  have "drop (length p + Overhead a) (drop (2 + Overhead a) (reader_data (cr_reader cr))) = ?rest"
    using l2 by (simp only: d1) simp
  with r cl show ?thesis by simp
qed

lemma WriteTo_loop_unfold:
  "WriteTo_loop c w wr =
     (case WriteTo_iter c w wr of
        None \<Rightarrow> None
      | Some (Inl res) \<Rightarrow> Some res
      | Some (Inr (c', w', wr')) \<Rightarrow> WriteTo_loop c' w' wr')"
  by (rule WriteTo_loop.simps)

lemma sink_Write_ok:
  "results w = [] \<Longrightarrow> sink_Write p w = ((length p, None), w\<lparr>written := written w @ [p]\<rparr>)"
  by (simp add: sink_Write_def)

lemma WriteTo_loop_enc:
  assumes "cr_wf a (rc_cr c)" "reader_ok (cr_reader (rc_cr c))" "aead_ok a" "aead_inverts a"
    "length (cr_counter (rc_cr c)) = NonceSize a"
    "reader_data (cr_reader (rc_cr c)) = enc a (cr_counter (rc_cr c)) ps"
    "\<forall>p \<in> set ps. length p \<le> payloadSizeMask"
    "leftover_len c = 0" "results w = []"
  shows "\<exists>c' w'. WriteTo_loop c w wr = Some ((wr + length (concat ps), None), c', w')
           \<and> written w' = written w @ ps \<and> results w' = []"
  using assms
proof (induction ps arbitrary: c w wr)
  case Nil
  from ReadChunk_at_end [OF Nil(1,2)] Nil(6) obtain cr' where
    "ReadChunk (rc_cr c) = Some (Inl EOF, cr')" by auto
  with Nil(8) have "WriteTo_iter c w wr = Some (Inl ((wr, None), c\<lparr>rc_cr := cr'\<rparr>, w))"
    by (simp add: WriteTo_iter_def ensureLeftover_def)
  with Nil(9) show ?case by (simp add: WriteTo_loop_unfold)
next
  case (Cons p ps)
  from Cons.prems(7) have lp: "length p \<le> payloadSizeMask" by simp
  from ReadChunk_enc [OF Cons.prems(1,2,3,4,5,6) lp] obtain cr' where
    r: "ReadChunk (rc_cr c) = Some (Inr (0, length p), cr')"
    and wf': "cr_wf a cr'" and ok': "reader_ok (cr_reader cr')"
    and d': "reader_data (cr_reader cr') = enc a (cr_counter cr') ps"
    and cl': "length (cr_counter cr') = NonceSize a"
    and p: "slice (cr_buf cr') 0 (length p) = p"
    by blast
  let ?c1 = "c\<lparr>rc_cr := cr', rc_leftover := (0, length p)\<rparr>"
  let ?c2 = "?c1\<lparr>rc_leftover := (length p, length p)\<rparr>"
  let ?w1 = "w\<lparr>written := written w @ [p]\<rparr>"
  have e: "ensureLeftover c = Some (None, ?c1)"
    using r Cons.prems(8) by (simp add: ensureLeftover_def)
  have lb: "leftover_bytes ?c1 = p" using p by (simp add: leftover_bytes_def)
  have it: "WriteTo_iter c w wr = Some (Inr (?c2, ?w1, wr + length p))"
    using e lb sink_Write_ok [OF Cons.prems(9), of p]
    by (simp add: WriteTo_iter_def)
  have l0: "leftover_len ?c2 = 0"
    by (simp add: leftover_len_def leftover_bytes_def slice_def)
  from Cons.IH [of ?c2 ?w1 "wr + length p"] wf' ok' Cons.prems(3,4,7,9) cl' d' l0
  obtain c' w' where
    "WriteTo_loop ?c2 ?w1 (wr + length p) = Some ((wr + length p + length (concat ps), None), c', w')"
    "written w' = written ?w1 @ ps" "results w' = []"
    by auto
  with it show ?case by (simp add: WriteTo_loop_unfold [of c] add.assoc)
qed


subsection \<open>The writer when nothing fails\<close>

lemma Read_ok:
  assumes "reader_ok r" "Read r n = ((d, e), r')"
  shows "reader_ok r'" and "e = None \<or> (e = Some EOF \<and> r' = [] \<and> d = [])"
  using assms by (cases r; auto split: if_splits)+

lemma emitChunk_sink:
  assumes "emitChunk ss sl st sw = Some (err, sw')" "results (sw_writer sw) = []"
  shows "err = None \<and> results (sw_writer sw') = []"
proof -
  let ?sw1 = "sw\<lparr>sw_buf := blit (sw_buf sw) ss (PutUint16 (of_nat (sw_pending sw)))\<rparr>"
  from assms(1) obtain k1 sw2 k2 sw3 n e w where
    e1: "encryptBlock ss 2 ?sw1 = Some (k1, sw2)"
    and e2: "encryptBlock (ss + sl) (sw_pending sw2) sw2 = Some (k2, sw3)"
    and wr: "sink_Write (slice (sw_buf sw3) st (ss + sl + k2)) (sw_writer sw3) = ((n, e), w)"
    and sw': "sw' = sw3\<lparr>sw_writer := w, sw_pending := 0\<rparr>" and err: "err = e"
    by (auto simp: emitChunk_def Let_def split: option.splits prod.splits if_splits)
  have "sw_writer sw3 = sw_writer sw"
    using encryptBlock_fields(6) [OF e1] encryptBlock_fields(6) [OF e2] by simp
  with wr assms(2) sw' err show ?thesis by (auto simp: sink_Write_def)
qed

lemma readFrom_iter_flow:
  assumes it: "readFrom_iter md ss sl r st wr sw = Some x"
    and rok: "reader_ok r" and snk: "results (sw_writer sw) = []"
  shows "case x of
           Inl (res, sw') \<Rightarrow> snd res = None \<and> results (sw_writer sw') = []
             \<and> snd (Read r (payloadSizeMask - sw_pending sw)) = []
         | Inr (r', st', wr', sw') \<Rightarrow> reader_ok r' \<and> results (sw_writer sw') = []"
  using it
proof (cases rule: readFrom_iter_cases)
  case (emit d err r1 err' sw2)
  from emitChunk_sink [OF emit(3)] snk have "err' = None" "results (sw_writer sw2) = []"
    by simp_all
  with emit(4) Read_ok(1) [OF rok emit(1)] show ?thesis
    by (auto simp: loop_end_def)
next
  case (keep d err r1)
  from Read_ok [OF rok keep(1)] keep(1,4) snk show ?thesis
    by (auto simp: loop_end_def)
qed

lemma readFrom_loop_flow:
  assumes lp: "readFrom_loop md (SaltSize c) (2 + Overhead a) r st wr sw = Some (res, sw')"
    and inv: "wire_inv n0 a c salt sw" and ok: "aead_ok a" and so: "start_ok c st sw"
    and rok: "reader_ok r" and snk: "results (sw_writer sw) = []"
  shows "snd res = None \<and> results (sw_writer sw') = []
         \<and> data_of a [] sw' = data_of a r sw"
proof -
  let ?D = "data_of a r sw"
  have "case (res, sw') of (res, sw') \<Rightarrow>
          snd res = None \<and> results (sw_writer sw') = [] \<and> data_of a [] sw' = ?D"
  proof (rule readFrom_loop_rule [OF lp,
        where I = "\<lambda>r st wr sw. wire_inv n0 a c salt sw \<and> start_ok c st sw \<and> reader_ok r
                     \<and> results (sw_writer sw) = [] \<and> data_of a r sw = ?D"])
    show "wire_inv n0 a c salt sw \<and> start_ok c st sw \<and> reader_ok r
            \<and> results (sw_writer sw) = [] \<and> data_of a r sw = ?D"
      using inv so rok snk by simp
  next
    fix r st wr sw r' st' wr' sw1
    assume i: "wire_inv n0 a c salt sw \<and> start_ok c st sw \<and> reader_ok r
                 \<and> results (sw_writer sw) = [] \<and> data_of a r sw = ?D"
      and it: "readFrom_iter md (SaltSize c) (2 + Overhead a) r st wr sw = Some (Inr (r', st', wr', sw1))"
    from readFrom_iter_wire [OF _ ok _ it, of n0 salt] readFrom_iter_flow [OF it] i
    show "wire_inv n0 a c salt sw1 \<and> start_ok c st' sw1 \<and> reader_ok r'
            \<and> results (sw_writer sw1) = [] \<and> data_of a r' sw1 = ?D"
      by simp
  next
    fix r st wr sw res
    assume i: "wire_inv n0 a c salt sw \<and> start_ok c st sw \<and> reader_ok r
                 \<and> results (sw_writer sw) = [] \<and> data_of a r sw = ?D"
      and it: "readFrom_iter md (SaltSize c) (2 + Overhead a) r st wr sw = Some (Inl res)"
    from readFrom_iter_wire [OF _ ok _ it, of n0 salt] readFrom_iter_flow [OF it] i
    show "case res of (res, sw') \<Rightarrow>
            snd res = None \<and> results (sw_writer sw') = [] \<and> data_of a [] sw' = ?D"
      by (auto split: prod.splits)
  qed
  then show ?thesis by simp
qed


text \<open>
  A cipher that derives, from every salt, one AEAD for both directions, whose
  \<open>Seal\<close> adds \<open>Overhead\<close> bytes and whose \<open>Open\<close> undoes \<open>Seal\<close>.
  \<open>sw_data\<close> is what the writer has taken in: the payloads it sealed, then the
  pending bytes. \<open>flow D sw\<close> says that the writer has taken in \<open>D\<close>, that its sink
  fails no write, that its AEAD comes from the salt in \<open>sw.buf\<close>, and, before
  \<open>init\<close>, that \<open>crypto/rand\<close> has a salt to deliver.
\<close>

definition cipher_ok :: "Cipher \<Rightarrow> bool" where
  "cipher_ok c = (\<forall>salt. \<exists>a. Encrypter c salt = Inr a \<and> Decrypter c salt = Inr a
                              \<and> aead_ok a \<and> aead_inverts a)"

definition sw_data :: "aead \<Rightarrow> shadowsocksWriter \<Rightarrow> bytes" where
  "sw_data a sw = concat (payloads (sw_sealed sw)) @ pending_bytes a sw"

definition flow :: "bytes \<Rightarrow> shadowsocksWriter \<Rightarrow> bool" where
  "flow D sw =
     (results (sw_writer sw) = []
      \<and> (case sw_aead sw of
            None \<Rightarrow> D = [] \<and> reader_ok (sw_rand sw)
                     \<and> SaltSize (sw_ssCipher sw) \<le> length (reader_data (sw_rand sw))
          | Some a \<Rightarrow> sw_data a sw = D
                     \<and> Encrypter (sw_ssCipher sw) (take (SaltSize (sw_ssCipher sw)) (sw_buf sw))
                         = Inr a))"

lemma data_of_Nil: "data_of a [] sw = sw_data a sw"
  by (simp add: data_of_def sw_data_def)

lemma data_of_sw_data: "data_of a r sw = sw_data a sw @ reader_data r"
  by (simp add: data_of_def sw_data_def)

lemma sw_data_flush [simp]: "sw_data a (sw\<lparr>sw_flush := b\<rparr>) = sw_data a sw"
  by (simp add: sw_data_def)

lemma flow_flush [simp]: "flow D (sw\<lparr>sw_flush := b\<rparr>) = flow D sw"
  by (simp add: flow_def split: option.splits)

lemma cipher_ok_seal_ok:
  "cipher_ok (sw_ssCipher sw) \<Longrightarrow> flow D sw \<Longrightarrow> seal_ok sw"
proof -
  assume ck: "cipher_ok (sw_ssCipher sw)" and fl: "flow D sw"
  have e: "aead_ok a" if "Encrypter (sw_ssCipher sw) salt = Inr a" for salt a
  proof -
    from ck obtain a' where "Encrypter (sw_ssCipher sw) salt = Inr a'" "aead_ok a'"
      by (auto simp: cipher_ok_def)
    with that show ?thesis by simp
  qed
  have "aead_ok a" if "sw_aead sw = Some a" for a
    using fl that e by (auto simp: flow_def)
  with e show ?thesis by (auto simp: seal_ok_def)
qed

lemma sw_init_flow:
  assumes inv: "sw_inv n0 sw" and ck: "cipher_ok (sw_ssCipher sw)" and fl: "flow D sw"
  shows "\<exists>sw0 a. sw_init sw = (None, sw0) \<and> sw_aead sw0 = Some a \<and> flow D sw0"
proof (cases "sw_aead sw")
  case (Some a)
  with fl show ?thesis by (simp add: sw_init_def)
next
  case None
  let ?ss = "SaltSize (sw_ssCipher sw)"
  let ?salt = "take ?ss (reader_data (sw_rand sw))"
  from fl None have D: "D = []" and rok: "reader_ok (sw_rand sw)"
    and le: "?ss \<le> length (reader_data (sw_rand sw))" and snk: "results (sw_writer sw) = []"
    by (simp_all add: flow_def)
  from inv None have p: "sw_pending sw = 0" and s: "sw_sealed sw = []"
    by (simp_all add: sw_inv_def)
  from ReadFull_ok_enough [OF rok le] obtain r' where
    rf: "ReadFull (sw_rand sw) ?ss = ((?salt, None), r')" by blast
  from ck obtain a where a: "Encrypter (sw_ssCipher sw) ?salt = Inr a"
    by (auto simp: cipher_ok_def)
  have ls: "length ?salt = ?ss" using le by simp
  let ?sw0 = "sw\<lparr>sw_rand := r', sw_aead := Some a,
                  sw_counter := replicate (NonceSize a) 0,
                  sw_buf := ?salt @ replicate (2 + Overhead a + (payloadSizeMask + Overhead a)) 0\<rparr>"
  have i: "sw_init sw = (None, ?sw0)"
    using None rf a by (simp add: sw_init_def Let_def)
  have "flow D ?sw0"
    using snk D p s a ls
    by (simp add: flow_def sw_data_def payloads_def pending_bytes_def slice_def)
  with i show ?thesis by auto
qed

lemma readFrom_flow:
  assumes inv: "sw_inv n0 sw" and ck: "cipher_ok (sw_ssCipher sw)" and w: "wire_ok n0 sw"
    and fl: "flow D sw" and rok: "reader_ok r"
    and rf: "readFrom r md sw = Some (res, sw')"
  shows "flow (D @ reader_data r) sw' \<and> snd res = None"
proof -
  from sw_init_flow [OF inv ck fl] obtain sw0 a where
    i: "sw_init sw = (None, sw0)" and a: "sw_aead sw0 = Some a" and fl0: "flow D sw0"
    by blast
  note ii = sw_init_inv [OF inv i]
  have w0: "wire_ok n0 sw0" using sw_init_wire [OF inv w i] .
  have ck0: "cipher_ok (sw_ssCipher sw0)" using ck ii(4) by simp
  let ?sw1 = "if md = modeNormal then sw0\<lparr>sw_flush := True\<rparr> else sw0"
  let ?c = "sw_ssCipher ?sw1"
  let ?st = "if isZero (sw_counter ?sw1) then 0 else SaltSize ?c"
  let ?salt = "take (SaltSize ?c) (sw_buf ?sw1)"
  have a1: "sw_aead ?sw1 = Some a" using a by simp
  have fl1: "flow D ?sw1" using fl0 by simp
  have aok: "aead_ok a"
    using cipher_ok_seal_ok [OF ck0 fl0] a by (simp add: seal_ok_def)
  have inv1: "loop_inv n0 a ?c ?sw1"
    using ii(1) a1 sw_inv_loop_inv [OF a1, of n0] by (simp split: if_splits)
  have w1: "wire_inv n0 a ?c ?salt ?sw1"
    using inv1 w0 a by (simp add: wire_inv_def wire_ok_def split: if_splits)
  from rf i a1 have
    l: "readFrom_loop md (SaltSize ?c) (2 + Overhead a) r ?st 0 ?sw1 = Some (res, sw')"
    by (auto simp: readFrom_def Let_def split: if_splits)
  have snk1: "results (sw_writer ?sw1) = []" using fl1 by (simp add: flow_def)
  from readFrom_loop_flow [OF l w1 aok start_ok_entry [OF inv1] rok snk1]
  have r: "snd res = None" "results (sw_writer sw') = []"
    and d: "sw_data a sw' = sw_data a ?sw1 @ reader_data r"
    by (simp_all add: data_of_Nil data_of_sw_data)
  from readFrom_loop_wire [OF l w1 aok start_ok_entry [OF inv1]]
  have wi: "wire_inv n0 a ?c ?salt sw'" .
  then have s': "take (SaltSize ?c) (sw_buf sw') = ?salt"
    and a': "sw_aead sw' = Some a" and c': "sw_ssCipher sw' = ?c"
    using loop_inv_aead [of n0 a ?c sw'] by (simp_all add: wire_inv_def)
  have "sw_data a ?sw1 = D" "Encrypter ?c ?salt = Inr a"
    using fl1 a1 by (simp_all add: flow_def split: if_splits)
  with r d s' a' c' show ?thesis by (simp add: flow_def)
qed


text \<open>
  The data a call hands to the writer, and the calls whose reader delivers its
  bytes and ends.
\<close>

fun op_data :: "sw_op \<Rightarrow> bytes" where
  "op_data (OpWrite p) = p"
| "op_data (OpLazyWrite p) = p"
| "op_data OpFlush = []"
| "op_data (OpReadFrom r) = reader_data r"

fun op_ok :: "sw_op \<Rightarrow> bool" where
  "op_ok (OpReadFrom r) = reader_ok r"
| "op_ok _ = True"

lemma byteWrapper_ok [simp]: "reader_ok (byteWrapper p)" "reader_data (byteWrapper p) = p"
  by (simp_all add: byteWrapper_def)

lemma sw_step_flow:
  assumes inv: "sw_inv n0 sw" and ck: "cipher_ok (sw_ssCipher sw)" and w: "wire_ok n0 sw"
    and fl: "flow D sw" and ok: "op_ok x" and s: "sw_step x sw = Some sw'"
  shows "flow (D @ op_data x) sw'"
proof (cases x)
  case (OpWrite p)
  with s obtain res where "readFrom (byteWrapper p) modeNormal sw = Some (res, sw')"
    by (auto simp: Write_def write_mode_def)
  from readFrom_flow [OF inv ck w fl _ this] OpWrite show ?thesis by simp
next
  case (OpLazyWrite p)
  with s obtain res where
    "readFrom (byteWrapper p) modeLazy (sw\<lparr>sw_flush := False\<rparr>) = Some (res, sw')"
    by (auto simp: LazyWrite_def write_mode_def)
  from readFrom_flow [OF _ _ _ _ _ this, of n0 D] inv ck w fl OpLazyWrite show ?thesis by simp
next
  case OpFlush
  show ?thesis
  proof (cases "sw_flush sw")
    case True
    with s fl OpFlush show ?thesis by (simp add: Flush_def)
  next
    case False
    with s OpFlush obtain res sw1 where
      r: "readFrom (byteWrapper []) modeFlush sw = Some (res, sw1)" and "sw' = sw1\<lparr>sw_flush := True\<rparr>"
      by (auto simp: Flush_def write_mode_def split: option.splits)
    with readFrom_flow [OF inv ck w fl _ r] OpFlush show ?thesis by simp
  qed
next
  case (OpReadFrom r)
  with s obtain res where "readFrom r modeNormal sw = Some (res, sw')"
    by (auto simp: ReadFrom_def)
  from readFrom_flow [OF inv ck w fl _ this] ok OpReadFrom show ?thesis by simp
qed

lemma sw_run_flow:
  "sw_inv n0 sw \<Longrightarrow> cipher_ok (sw_ssCipher sw) \<Longrightarrow> wire_ok n0 sw \<Longrightarrow> flow D sw
     \<Longrightarrow> list_all op_ok ops \<Longrightarrow> sw_run ops sw = Some sw'
     \<Longrightarrow> flow (D @ concat (map op_data ops)) sw'"
proof (induction ops arbitrary: sw D)
  case Nil
  then show ?case by simp
next
  case (Cons x xs)
  then obtain sw1 where s: "sw_step x sw = Some sw1" and r: "sw_run xs sw1 = Some sw'"
    by (auto split: option.splits)
  from Cons.prems(5) have okx: "op_ok x" and okxs: "list_all op_ok xs" by simp_all
  have so: "seal_ok sw" using cipher_ok_seal_ok [OF Cons.prems(2,4)] .
  have c1: "cipher_ok (sw_ssCipher sw1)"
    using sw_step_cipher [OF Cons.prems(1) s] Cons.prems(2) by simp
  from Cons.IH [OF sw_step_inv [OF Cons.prems(1) s] c1
      sw_step_wire [OF Cons.prems(1) so Cons.prems(3) s]
      sw_step_flow [OF Cons.prems(1,2,3,4) okx s] okxs r]
  show ?case by simp
qed

subsection \<open>From the sink to the reader\<close>

lemma pair_up_map: "pair_up (map f xs) = map (\<lambda>(x, y). (f x, f y)) (pair_up xs)"
  by (induction xs rule: pair_up.induct) auto

lemma frames_enc:
  "even (length sealed) \<Longrightarrow> map fst sealed = map (nonce N) [k..<k + length sealed]
     \<Longrightarrow> \<forall>(x, y) \<in> set (pair_up (map snd sealed)). x = PutUint16 (of_nat (length y))
     \<Longrightarrow> concat (map (frame a) (pair_up sealed)) = enc a (nonce N k) (payloads sealed)"
proof (induction sealed arbitrary: k rule: pair_up.induct)
  case (1 x y r)
  have "[k..<k + length (x # y # r)] = k # [Suc k..<k + length (x # y # r)]"
    by (rule upt_conv_Cons) simp
  also have "[Suc k..<k + length (x # y # r)] = Suc k # [Suc (Suc k)..<k + length (x # y # r)]"
    by (rule upt_conv_Cons) simp
  finally have u: "[k..<k + length (x # y # r)]
                     = k # Suc k # [Suc (Suc k)..<Suc (Suc k) + length r]"
    by simp
  from "1.prems"(2) have x: "fst x = nonce N k" and y: "fst y = increment (nonce N k)"
    and r: "map fst r = map (nonce N) [Suc (Suc k)..<Suc (Suc k) + length r]"
    unfolding u by (simp_all add: nonce_Suc)
  from "1.prems"(3) have sx: "snd x = PutUint16 (of_nat (length (snd y)))"
    and rs: "\<forall>(x, y) \<in> set (pair_up (map snd r)). x = PutUint16 (of_nat (length y))"
    by simp_all
  from "1.prems"(1) have ev: "even (length r)" by simp
  from "1.IH" [OF ev r rs]
  have "concat (map (frame a) (pair_up r)) = enc a (nonce N (Suc (Suc k))) (payloads r)" .
  then show ?case
    using x y sx
    by (cases x; cases y) (simp add: frame_def payloads_def nonce_Suc)
qed (simp_all add: payloads_def)

lemma log_ok_payloads:
  assumes "log_ok N sealed"
  shows "\<forall>p \<in> set (payloads sealed). 0 < length p \<and> length p \<le> payloadSizeMask"
    and "length sealed = 2 * length (payloads sealed)"
    and "concat (map (frame a) (pair_up sealed)) = enc a (replicate N 0) (payloads sealed)"
proof -
  from assms have ev: "even (length sealed)"
    and n: "map fst sealed = map (nonce N) [0..<length sealed]"
    and p: "\<forall>(x, y) \<in> set (pair_up (map snd sealed)).
              x = PutUint16 (of_nat (length y)) \<and> 0 < length y \<and> length y \<le> payloadSizeMask"
    by (simp_all add: log_ok_def)
  from p show "\<forall>p \<in> set (payloads sealed). 0 < length p \<and> length p \<le> payloadSizeMask"
    by (fastforce simp: payloads_def pair_up_map)
  from ev show "length sealed = 2 * length (payloads sealed)"
    by (auto simp: payloads_def length_pair_up)
  from p have "\<forall>(x, y) \<in> set (pair_up (map snd sealed)). x = PutUint16 (of_nat (length y))"
    by auto
  from frames_enc [OF ev _ this, of N 0 a] n
  show "concat (map (frame a) (pair_up sealed)) = enc a (replicate N 0) (payloads sealed)"
    by (simp add: nonce_0)
qed

lemma length_concat_ge:
  "\<forall>p \<in> set ps. 0 < length p \<Longrightarrow> length ps \<le> length (concat ps)"
proof (induction ps)
  case Nil
  show ?case by simp
next
  case (Cons p ps)
  then have "1 \<le> length p" "length ps \<le> length (concat ps)"
    by (simp_all add: Suc_le_eq)
  then have "length ps + 1 \<le> length p + length (concat ps)" by arith
  then show ?case by simp
qed


lemma leftover_len_New [simp]: "leftover_len (NewShadowsocksReader r c) = 0"
  by (simp add: leftover_len_def leftover_bytes_def NewShadowsocksReader_def slice_def)

lemma ReadChunk_new_empty:
  assumes ck: "cipher_ok ciph" and rok: "reader_ok r" and d: "reader_data r = []"
  shows "\<exists>cr'. ReadChunk (rc_cr (NewShadowsocksReader r ciph)) = Some (Inl EOF, cr')"
proof -
  let ?cr = "rc_cr (NewShadowsocksReader r ciph)"
  have f: "cr_aead ?cr = None" and r: "cr_reader ?cr = r" and s: "cr_ssCipher ?cr = ciph"
    by (simp_all add: NewShadowsocksReader_def)
  show ?thesis
  proof (cases "0 < SaltSize ciph")
    case True
    from cr_init_fresh_short [of ?cr] f r s rok d True
    show ?thesis by (simp add: ReadChunk_def)
  next
    case False
    from ck obtain a where a: "Decrypter ciph [] = Inr a" by (auto simp: cipher_ok_def)
    from cr_init_fresh_opens [of ?cr a] f r s rok d False a obtain cr0 where
      i: "cr_init ?cr = (None, cr0)" and wf: "cr_wf a cr0" and ok0: "reader_ok (cr_reader cr0)"
      and d0: "reader_data (cr_reader cr0) = []"
      by auto
    from ReadChunk_at_end [OF wf ok0] d0 ReadChunk_init [OF i wf] show ?thesis by auto
  qed
qed

text \<open>
  The first call on a new reader reads the salt; from then on the reader is the
  one whose chunk reader is past the salt.
\<close>

lemma new_reader_past_salt:
  assumes rok: "reader_ok r"
    and d: "reader_data r = salt @ enc a (replicate (NonceSize a) 0) ps"
    and ls: "length salt = SaltSize ciph" and dec: "Decrypter ciph salt = Inr a"
  shows "\<exists>cr0. ensureLeftover (NewShadowsocksReader r ciph)
                  = ensureLeftover ((NewShadowsocksReader r ciph)\<lparr>rc_cr := cr0\<rparr>)
           \<and> cr_wf a cr0 \<and> reader_ok (cr_reader cr0)
           \<and> length (cr_counter cr0) = NonceSize a
           \<and> reader_data (cr_reader cr0) = enc a (cr_counter cr0) ps
           \<and> leftover_bytes ((NewShadowsocksReader r ciph)\<lparr>rc_cr := cr0\<rparr>) = []"
proof -
  let ?c = "NewShadowsocksReader r ciph"
  let ?cr = "rc_cr ?c"
  have f: "cr_aead ?cr = None" and r: "cr_reader ?cr = r" and s: "cr_ssCipher ?cr = ciph"
    by (simp_all add: NewShadowsocksReader_def)
  have le: "SaltSize (cr_ssCipher ?cr) \<le> length (reader_data (cr_reader ?cr))"
    using d ls by (simp add: r s)
  have dc: "Decrypter (cr_ssCipher ?cr)
              (take (SaltSize (cr_ssCipher ?cr)) (reader_data (cr_reader ?cr))) = Inr a"
    using d ls dec by (simp add: r s)
  from cr_init_fresh_opens [OF f _ le dc] rok r obtain cr0 where
    i: "cr_init ?cr = (None, cr0)" and wf: "cr_wf a cr0" and ok0: "reader_ok (cr_reader cr0)"
    and d0: "reader_data (cr_reader cr0)
               = drop (SaltSize (cr_ssCipher ?cr)) (reader_data (cr_reader ?cr))"
    and c0: "cr_counter cr0 = replicate (NonceSize a) 0"
    by auto
  have d0': "reader_data (cr_reader cr0) = enc a (cr_counter cr0) ps"
    using d0 d ls by (simp add: r s c0)
  let ?past = "?c\<lparr>rc_cr := cr0\<rparr>"
  have lb: "leftover_bytes ?past = []"
    by (simp add: leftover_bytes_def NewShadowsocksReader_def slice_def)
  then have l0: "leftover_len ?past = 0" by (simp add: leftover_len_def)
  have "ensureLeftover ?c = ensureLeftover ?past"
    using l0 ReadChunk_init [OF i wf]
    by (auto simp: ensureLeftover_def split: option.splits sum.splits)
  with wf ok0 c0 d0' lb show ?thesis by auto
qed

lemma WriteTo_at_EOF:
  assumes "ReadChunk (rc_cr c) = Some (Inl EOF, cr')" "leftover_len c = 0"
  shows "WriteTo w c = Some ((0, None), c\<lparr>rc_cr := cr'\<rparr>, w)"
proof -
  from assms have "WriteTo_iter c w 0 = Some (Inl ((0, None), c\<lparr>rc_cr := cr'\<rparr>, w))"
    by (simp add: WriteTo_iter_def ensureLeftover_def)
  then show ?thesis by (simp add: WriteTo_def WriteTo_loop_unfold)
qed

lemma WriteTo_new_empty:
  assumes ck: "cipher_ok ciph" and rok: "reader_ok r" and d: "reader_data r = []"
  shows "\<exists>c'. WriteTo w (NewShadowsocksReader r ciph) = Some ((0, None), c', w)"
proof -
  from ReadChunk_new_empty [OF assms] obtain cr' where
    "ReadChunk (rc_cr (NewShadowsocksReader r ciph)) = Some (Inl EOF, cr')" by blast
  from WriteTo_at_EOF [OF this] show ?thesis by simp
qed

lemma WriteTo_new_enc:
  assumes rok: "reader_ok r"
    and d: "reader_data r = salt @ enc a (replicate (NonceSize a) 0) ps"
    and ls: "length salt = SaltSize ciph" and dec: "Decrypter ciph salt = Inr a"
    and ao: "aead_ok a" and ai: "aead_inverts a"
    and lp: "\<forall>p \<in> set ps. length p \<le> payloadSizeMask"
    and snk: "results w = []"
  shows "\<exists>c' w'. WriteTo w (NewShadowsocksReader r ciph) = Some ((length (concat ps), None), c', w')
           \<and> written w' = written w @ ps"
proof -
  let ?c = "NewShadowsocksReader r ciph"
  from new_reader_past_salt [OF rok d ls dec] obtain cr0 where
    e: "ensureLeftover ?c = ensureLeftover (?c\<lparr>rc_cr := cr0\<rparr>)"
    and wf: "cr_wf a cr0" and ok0: "reader_ok (cr_reader cr0)"
    and cl: "length (cr_counter cr0) = NonceSize a"
    and d0: "reader_data (cr_reader cr0) = enc a (cr_counter cr0) ps"
    and lb: "leftover_bytes (?c\<lparr>rc_cr := cr0\<rparr>) = []"
    by blast
  let ?past = "?c\<lparr>rc_cr := cr0\<rparr>"
  have l0: "leftover_len ?past = 0" using lb by (simp add: leftover_len_def)
  from e have "WriteTo_iter ?c w 0 = WriteTo_iter ?past w 0"
    by (simp add: WriteTo_iter_def)
  then have eq: "WriteTo_loop ?c w 0 = WriteTo_loop ?past w 0"
    by (simp add: WriteTo_loop_unfold [of ?c] WriteTo_loop_unfold [of ?past])
  from WriteTo_loop_enc [of a ?past ps w 0] wf ok0 ao ai cl d0 lp l0 snk
  obtain c' w' where r1: "WriteTo_loop ?past w 0 = Some ((length (concat ps), None), c', w')"
    and r2: "written w' = written w @ ps"
    by auto
  note r3 = trans [OF eq r1]
  show ?thesis unfolding WriteTo_def using r3 r2 by blast
qed

subsection \<open>Reading with \<open>Read\<close>\<close>

text \<open>
  A caller of \<open>Read\<close> with buffers of the sizes \<open>ns\<close>, one call after the other
  until a call fails: the bytes received, and the error of the last call.
\<close>

fun Read_seq :: "nat list \<Rightarrow> readConverter \<Rightarrow> ((bytes \<times> error option) \<times> readConverter) option" where
  "Read_seq [] c = Some (([], None), c)"
| "Read_seq (n # ns) c =
     (case readConverter_Read n c of
        None \<Rightarrow> None
      | Some ((b, Some err), c1) \<Rightarrow> Some ((b, Some err), c1)
      | Some ((b, None), c1) \<Rightarrow>
          (case Read_seq ns c1 of
             None \<Rightarrow> None
           | Some ((bs, e), c2) \<Rightarrow> Some ((b @ bs, e), c2)))"

text \<open>
  The reader between two calls, with \<open>R\<close> still to deliver: the leftover of the
  last chunk, then the payloads of the chunks in the stream.
\<close>

definition rd_inv :: "aead \<Rightarrow> readConverter \<Rightarrow> bytes \<Rightarrow> bool" where
  "rd_inv a c R =
     (cr_wf a (rc_cr c) \<and> reader_ok (cr_reader (rc_cr c))
      \<and> length (cr_counter (rc_cr c)) = NonceSize a
      \<and> (\<exists>ps. (\<forall>p \<in> set ps. 0 < length p \<and> length p \<le> payloadSizeMask)
                \<and> reader_data (cr_reader (rc_cr c)) = enc a (cr_counter (rc_cr c)) ps
                \<and> R = leftover_bytes c @ concat ps))"

lemma slice_drop: "slice buf (lo + k) hi = drop k (slice buf lo hi)"
  by (simp add: slice_def drop_take add.commute)

lemma leftover_advance:
  "leftover_bytes (c\<lparr>rc_leftover := (fst (rc_leftover c) + k, snd (rc_leftover c))\<rparr>)
     = drop k (leftover_bytes c)"
  by (simp add: leftover_bytes_def slice_drop)

lemma Read_step:
  assumes inv: "rd_inv a c R" and ao: "aead_ok a" and ai: "aead_inverts a"
  shows "\<exists>b e c'. readConverter_Read n c = Some ((b, e), c')
           \<and> (if R = [] then e = Some EOF \<and> b = []
               else e = None \<and> rd_inv a c' (drop (length b) R) \<and> b = take (length b) R
                    \<and> (0 < n \<longrightarrow> b \<noteq> []))"
proof -
  from inv obtain ps where wf: "cr_wf a (rc_cr c)" and ok: "reader_ok (cr_reader (rc_cr c))"
    and cl: "length (cr_counter (rc_cr c)) = NonceSize a"
    and lps: "\<forall>p \<in> set ps. 0 < length p \<and> length p \<le> payloadSizeMask"
    and d: "reader_data (cr_reader (rc_cr c)) = enc a (cr_counter (rc_cr c)) ps"
    and R: "R = leftover_bytes c @ concat ps"
    by (auto simp: rd_inv_def)
  show ?thesis
  proof (cases "leftover_bytes c = []")
    case False
    let ?k = "min n (leftover_len c)"
    let ?c' = "c\<lparr>rc_leftover := (fst (rc_leftover c) + ?k, snd (rc_leftover c))\<rparr>"
    from False have e: "ensureLeftover c = Some (None, c)"
      by (simp add: ensureLeftover_def leftover_len_def)
    then have rd: "readConverter_Read n c = Some ((take ?k (leftover_bytes c), None), ?c')"
      by (simp add: readConverter_Read_def Let_def)
    have lb: "length (take ?k (leftover_bytes c)) = ?k" by (simp add: leftover_len_def)
    have "rd_inv a ?c' (drop ?k R)"
      unfolding rd_inv_def leftover_advance
      using wf ok cl lps d R by (auto simp: leftover_len_def)
    moreover have "take ?k (leftover_bytes c) = take ?k R"
      using R by (simp add: leftover_len_def)
    moreover have "0 < n \<longrightarrow> take ?k (leftover_bytes c) \<noteq> []"
      using False by (simp add: leftover_len_def)
    moreover have "R \<noteq> []" using R False by simp
    ultimately show ?thesis using rd lb by (simp del: length_take)
  next
    case True
    then have l0: "leftover_len c = 0" by (simp add: leftover_len_def)
    show ?thesis
    proof (cases ps)
      case Nil
      with d R True have R0: "R = []" and d0: "reader_data (cr_reader (rc_cr c)) = []"
        by simp_all
      from ReadChunk_at_end [OF wf ok] d0 obtain cr' where
        "ReadChunk (rc_cr c) = Some (Inl EOF, cr')" by auto
      with l0 R0 show ?thesis
        by (simp add: readConverter_Read_def ensureLeftover_def)
    next
      case (Cons p ps')
      with lps have lp: "length p \<le> payloadSizeMask" and p0: "p \<noteq> []"
        and lps': "\<forall>p \<in> set ps'. 0 < length p \<and> length p \<le> payloadSizeMask"
        by auto
      from ReadChunk_enc [OF wf ok ao ai cl d [unfolded Cons] lp] obtain cr' where
        r: "ReadChunk (rc_cr c) = Some (Inr (0, length p), cr')"
        and wf': "cr_wf a cr'" and ok': "reader_ok (cr_reader cr')"
        and d': "reader_data (cr_reader cr') = enc a (cr_counter cr') ps'"
        and cl': "length (cr_counter cr') = NonceSize a"
        and p: "slice (cr_buf cr') 0 (length p) = p"
        by blast
      let ?c1 = "c\<lparr>rc_cr := cr', rc_leftover := (0, length p)\<rparr>"
      let ?k = "min n (length p)"
      let ?c' = "?c1\<lparr>rc_leftover := (fst (rc_leftover ?c1) + ?k, snd (rc_leftover ?c1))\<rparr>"
      have e: "ensureLeftover c = Some (None, ?c1)"
        using r l0 by (simp add: ensureLeftover_def)
      have lb: "leftover_bytes ?c1 = p" using p by (simp add: leftover_bytes_def)
      have rd: "readConverter_Read n c = Some ((take ?k p, None), ?c')"
        using e lb by (simp add: readConverter_Read_def Let_def leftover_len_def)
      have R': "R = p @ concat ps'" using R True Cons by simp
      have "rd_inv a ?c' (drop ?k R)"
        unfolding rd_inv_def leftover_advance lb
        using wf' ok' cl' lps' d' R' by auto
      moreover have "take ?k p = take ?k R" using R' by simp
      moreover have "0 < n \<longrightarrow> take ?k p \<noteq> []" using p0 by simp
      moreover have "R \<noteq> []" using R' p0 by simp
      moreover have "length (take ?k p) = ?k" by simp
      ultimately show ?thesis using rd by (simp del: length_take)
    qed
  qed
qed

lemma Read_seq_inv:
  assumes "rd_inv a c R" "aead_ok a" "aead_inverts a"
  shows "\<exists>b e c'. Read_seq ns c = Some ((b, e), c')
           \<and> (e = None \<or> e = Some EOF) \<and> b = take (length b) R
           \<and> (e = Some EOF \<longrightarrow> b = R)
           \<and> (e = None \<and> (\<forall>n \<in> set ns. 0 < n) \<longrightarrow> length ns \<le> length b)"
  using assms(1)
proof (induction ns arbitrary: c R)
  case Nil
  show ?case by simp
next
  case (Cons n ns)
  from Read_step [OF Cons.prems assms(2,3), of n] obtain b1 e1 c1 where
    rd: "readConverter_Read n c = Some ((b1, e1), c1)"
    and st: "if R = [] then e1 = Some EOF \<and> b1 = []
             else e1 = None \<and> rd_inv a c1 (drop (length b1) R) \<and> b1 = take (length b1) R
                  \<and> (0 < n \<longrightarrow> b1 \<noteq> [])"
    by blast
  show ?case
  proof (cases "R = []")
    case True
    with rd st show ?thesis by simp
  next
    case False
    with st have e1: "e1 = None" and inv1: "rd_inv a c1 (drop (length b1) R)"
      and b1: "b1 = take (length b1) R" and pos: "0 < n \<longrightarrow> b1 \<noteq> []"
      by simp_all
    from Cons.IH [OF inv1] obtain bs e c2 where
      rs: "Read_seq ns c1 = Some ((bs, e), c2)" and e: "e = None \<or> e = Some EOF"
      and bs: "bs = take (length bs) (drop (length b1) R)"
      and eof: "e = Some EOF \<longrightarrow> bs = drop (length b1) R"
      and pr: "e = None \<and> (\<forall>n \<in> set ns. 0 < n) \<longrightarrow> length ns \<le> length bs"
      by blast
    have r: "Read_seq (n # ns) c = Some ((b1 @ bs, e), c2)"
      using rd e1 rs by simp
    have "take (length b1 + length bs) R = take (length b1) R @ take (length bs) (drop (length b1) R)"
      by (rule take_add)
    with b1 bs have p: "b1 @ bs = take (length (b1 @ bs)) R" by simp
    have q: "e = Some EOF \<longrightarrow> b1 @ bs = R"
    proof
      assume "e = Some EOF"
      with eof have "b1 @ bs = take (length b1) R @ drop (length b1) R" using b1 by simp
      then show "b1 @ bs = R" by simp
    qed
    have g: "e = None \<and> (\<forall>n \<in> set (n # ns). 0 < n) \<longrightarrow> length (n # ns) \<le> length (b1 @ bs)"
    proof
      assume h: "e = None \<and> (\<forall>n \<in> set (n # ns). 0 < n)"
      with pr have "length ns \<le> length bs" by simp
      moreover from h pos have "1 \<le> length b1" by (cases b1) simp_all
      ultimately show "length (n # ns) \<le> length (b1 @ bs)" by simp
    qed
    from r e p q g show ?thesis by blast
  qed
qed

lemma Read_seq_new:
  assumes e: "ensureLeftover c = ensureLeftover c'"
  shows "map_option fst (Read_seq ns c) = map_option fst (Read_seq ns c')"
proof (cases ns)
  case Nil
  show ?thesis by (simp add: Nil)
next
  case (Cons n ns')
  from e have "readConverter_Read n c = readConverter_Read n c'"
    by (simp add: readConverter_Read_def)
  then show ?thesis by (simp add: Cons)
qed

lemma Read_seq_new_empty:
  assumes ck: "cipher_ok ciph" and rok: "reader_ok r" and d: "reader_data r = []"
  shows "\<exists>e c'. Read_seq ns (NewShadowsocksReader r ciph) = Some (([], e), c')
           \<and> (e = None \<or> e = Some EOF) \<and> (e = None \<longrightarrow> ns = [])"
proof (cases ns)
  case Nil
  show ?thesis by (simp add: Nil)
next
  case (Cons n ns')
  from ReadChunk_new_empty [OF assms] obtain cr' where
    "ReadChunk (rc_cr (NewShadowsocksReader r ciph)) = Some (Inl EOF, cr')" by blast
  then show ?thesis
    by (simp add: Cons readConverter_Read_def ensureLeftover_def)
qed

lemma Read_seq_new_enc:
  assumes rok: "reader_ok r"
    and d: "reader_data r = salt @ enc a (replicate (NonceSize a) 0) ps"
    and ls: "length salt = SaltSize ciph" and dec: "Decrypter ciph salt = Inr a"
    and ao: "aead_ok a" and ai: "aead_inverts a"
    and lp: "\<forall>p \<in> set ps. 0 < length p \<and> length p \<le> payloadSizeMask"
  shows "\<exists>b e c'. Read_seq ns (NewShadowsocksReader r ciph) = Some ((b, e), c')
           \<and> (e = None \<or> e = Some EOF) \<and> b = take (length b) (concat ps)
           \<and> (e = Some EOF \<longrightarrow> b = concat ps)
           \<and> (e = None \<and> (\<forall>n \<in> set ns. 0 < n) \<longrightarrow> length ns \<le> length b)"
proof -
  let ?c = "NewShadowsocksReader r ciph"
  from new_reader_past_salt [OF rok d ls dec] obtain cr0 where
    e: "ensureLeftover ?c = ensureLeftover (?c\<lparr>rc_cr := cr0\<rparr>)"
    and wf: "cr_wf a cr0" and ok0: "reader_ok (cr_reader cr0)"
    and cl: "length (cr_counter cr0) = NonceSize a"
    and d0: "reader_data (cr_reader cr0) = enc a (cr_counter cr0) ps"
    and lb: "leftover_bytes (?c\<lparr>rc_cr := cr0\<rparr>) = []"
    by blast
  let ?past = "?c\<lparr>rc_cr := cr0\<rparr>"
  have "rd_inv a ?past (concat ps)"
    unfolding rd_inv_def lb using wf ok0 cl d0 lp by auto
  from Read_seq_inv [OF this ao ai, of ns] obtain b e' c' where
    r: "Read_seq ns ?past = Some ((b, e'), c')"
    and f: "e' = None \<or> e' = Some EOF" "b = take (length b) (concat ps)"
      "e' = Some EOF \<longrightarrow> b = concat ps"
      "e' = None \<and> (\<forall>n \<in> set ns. 0 < n) \<longrightarrow> length ns \<le> length b"
    by blast
  from Read_seq_new [OF e, of ns] r obtain c'' where
    "Read_seq ns ?c = Some ((b, e'), c'')" by auto
  with f show ?thesis by blast
qed

subsection \<open>The whole way\<close>

lemma concat_wire_writes:
  "concat (wire_writes a salt cs) = (if cs = [] then [] else salt @ concat (map (frame a) cs))"
  by (cases cs) (simp_all add: wire_writes_def)

lemma flow_New:
  "results w = [] \<Longrightarrow> reader_ok rnd \<Longrightarrow> SaltSize c \<le> length (reader_data rnd)
     \<Longrightarrow> flow [] (NewShadowsocksWriter w c rnd)"
  by (simp add: flow_def NewShadowsocksWriter_def)

lemma wire_ok_New: "wire_ok n0 (NewShadowsocksWriter w c rnd)"
  by (simp add: wire_ok_def NewShadowsocksWriter_def)

text \<open>
  What a flushed writer has sent: nothing at all when it was given no data, and
  otherwise the salt, then the chunks whose payloads make up the data.
\<close>

lemma sink_stream:
  assumes ck: "cipher_ok c"
    and rnd: "reader_ok rnd" "SaltSize c \<le> length (reader_data rnd)"
    and snk: "results w = []"
    and ops: "list_all op_ok ops"
    and run: "sw_run ops (NewShadowsocksWriter w c rnd) = Some sw"
    and flushed: "sw_pending sw = 0"
    and size: "\<forall>salt a. Encrypter c salt = Inr a
                 \<longrightarrow> 2 * length (concat (map op_data ops)) \<le> 256 ^ NonceSize a"
  shows "(concat (map op_data ops) = []
            \<and> concat (drop (length (written w)) (written (sw_writer sw))) = [])
         \<or> (\<exists>a salt ps.
               concat (drop (length (written w)) (written (sw_writer sw)))
                 = salt @ enc a (replicate (NonceSize a) 0) ps
               \<and> length salt = SaltSize c \<and> Decrypter c salt = Inr a
               \<and> aead_ok a \<and> aead_inverts a
               \<and> (\<forall>p \<in> set ps. 0 < length p \<and> length p \<le> payloadSizeMask)
               \<and> concat ps = concat (map op_data ops))"
proof -
  let ?new = "NewShadowsocksWriter w c rnd"
  let ?n0 = "length (written w)"
  let ?P = "concat (map op_data ops)"
  have c0: "sw_ssCipher ?new = c" by (simp add: NewShadowsocksWriter_def)
  have ck0: "cipher_ok (sw_ssCipher ?new)" using ck by (simp add: c0)
  have inv0: "sw_inv ?n0 ?new" by (rule sw_inv_New)
  have fl0: "flow [] ?new" using flow_New [OF snk rnd] .
  have inv: "sw_inv ?n0 sw" using sw_run_inv [OF inv0 run] .
  have wi: "wire_ok ?n0 sw"
    using sw_run_wire [OF inv0 cipher_ok_seal_ok [OF ck0 fl0] wire_ok_New run] .
  have fl: "flow ?P sw" using sw_run_flow [OF inv0 ck0 wire_ok_New fl0 ops run] by simp
  have cs: "sw_ssCipher sw = c" using sw_run_cipher [OF inv0 run] by (simp add: c0)
  show ?thesis
  proof (cases "sw_aead sw")
    case None
    with fl have "?P = []" by (simp add: flow_def)
    moreover from inv None have "drop ?n0 (written (sw_writer sw)) = []"
      by (simp add: sw_inv_def)
    ultimately show ?thesis by simp
  next
    case (Some a)
    let ?ps = "payloads (sw_sealed sw)"
    let ?salt = "take (SaltSize c) (sw_buf sw)"
    from inv Some cs have li: "loop_inv ?n0 a c sw" by (simp add: sw_inv_def)
    then have wf: "sw_wf a sw" and lg: "log_ok (NonceSize a) (sw_sealed sw)"
      by (simp_all add: loop_inv_def)
    note lp = log_ok_payloads [OF lg]
    from fl Some cs have d: "sw_data a sw = ?P" and en: "Encrypter c ?salt = Inr a"
      by (simp_all add: flow_def)
    have "pending_bytes a sw = []" using flushed by (simp add: pending_bytes_def slice_def)
    with d have P: "concat ?ps = ?P" by (simp add: sw_data_def)
    have "length ?ps \<le> length (concat ?ps)"
      using lp(1) by (intro length_concat_ge) simp
    moreover from size en have "2 * length ?P \<le> 256 ^ NonceSize a" by blast
    ultimately have "length (sw_sealed sw) \<le> 256 ^ NonceSize a" using lp(2) P by simp
    with wi Some cs have
      "drop ?n0 (written (sw_writer sw)) = wire_writes a ?salt (pair_up (sw_sealed sw))"
      by (simp add: wire_ok_def)
    then have wire: "concat (drop ?n0 (written (sw_writer sw)))
        = (if pair_up (sw_sealed sw) = [] then []
           else ?salt @ enc a (replicate (NonceSize a) 0) ?ps)"
      using lp(3) [of a] by (simp add: concat_wire_writes)
    show ?thesis
    proof (cases "pair_up (sw_sealed sw) = []")
      case True
      then have "?ps = []" by (simp add: payloads_def)
      with P wire True show ?thesis by simp
    next
      case False
      from ck en obtain ao: "aead_ok a" and ai: "aead_inverts a"
        and dec: "Decrypter c ?salt = Inr a"
        by (metis cipher_ok_def Inr_inject)
      have ls: "length ?salt = SaltSize c" using wf cs by (simp add: sw_wf_def)
      have "concat (drop ?n0 (written (sw_writer sw)))
              = ?salt @ enc a (replicate (NonceSize a) 0) ?ps
            \<and> length ?salt = SaltSize c \<and> Decrypter c ?salt = Inr a
            \<and> aead_ok a \<and> aead_inverts a
            \<and> (\<forall>p \<in> set ?ps. 0 < length p \<and> length p \<le> payloadSizeMask)
            \<and> concat ?ps = ?P"
        using wire False ls dec ao ai lp(1) P by simp
      then show ?thesis by blast
    qed
  qed
qed

lemma aead_inverts_testAEAD: "aead_inverts (testAEAD salt)"
  by (simp add: aead_inverts_def testAEAD_def)

lemma cipher_ok_testCipher: "cipher_ok testCipher"
  by (simp add: cipher_ok_def testCipher_def aead_ok_testAEAD aead_inverts_testAEAD)

text \<open>
  C1. A new writer receives any sequence of \<open>Write\<close>, \<open>LazyWrite\<close>, \<open>Flush\<close> and
  \<open>ReadFrom\<close> calls; \<open>P\<close> is the data of the calls, in order, of at most 10 MiB.
  The cipher derives one AEAD for both directions from a salt, with nonces of 12
  bytes; \<open>crypto/rand\<close> delivers a salt, the sink takes every write, and the readers
  given to \<open>ReadFrom\<close> deliver their bytes and end. Then the calls return. When they
  leave nothing pending, a new reader with the same cipher, over the bytes that
  reached the sink, delivered in reads of any sizes, gives back exactly \<open>P\<close>.
  \<open>WriteTo\<close> copies \<open>P\<close> to its sink and returns the length of \<open>P\<close> and no
  error. \<open>Read\<close> calls with buffers of any sizes return \<open>P\<close> piece by piece: what
  they have returned is a prefix of \<open>P\<close>, every call with a buffer that is not
  empty returns at least one byte, and \<open>io.EOF\<close> comes when all of \<open>P\<close> has been
  returned, and no other error.
\<close>

theorem round_trip:
  assumes ck: "cipher_ok c"
    and ns: "\<forall>salt a. Encrypter c salt = Inr a \<longrightarrow> NonceSize a = 12"
    and rnd: "reader_ok rnd" "SaltSize c \<le> length (reader_data rnd)"
    and snk: "results w = []"
    and ops: "list_all op_ok ops" and P: "P = concat (map op_data ops)"
    and size: "length P \<le> 10 * 1024 * 1024"
  shows "\<exists>sw. sw_run ops (NewShadowsocksWriter w c rnd) = Some sw
           \<and> (\<forall>r. sw_pending sw = 0 \<and> reader_ok r
                  \<and> reader_data r = concat (drop (length (written w)) (written (sw_writer sw)))
                \<longrightarrow> (\<forall>w2. results w2 = []
                       \<longrightarrow> (\<exists>c' w2'. WriteTo w2 (NewShadowsocksReader r c)
                                          = Some ((length P, None), c', w2')
                                \<and> concat (drop (length (written w2)) (written w2')) = P))
                    \<and> (\<forall>sizes. \<exists>b e c'.
                          Read_seq sizes (NewShadowsocksReader r c) = Some ((b, e), c')
                          \<and> (e = None \<or> e = Some EOF)
                          \<and> b = take (length b) P
                          \<and> (e = Some EOF \<longrightarrow> b = P)
                          \<and> (e = None \<and> (\<forall>n \<in> set sizes. 0 < n)
                               \<longrightarrow> length sizes \<le> length b)))"
proof -
  let ?new = "NewShadowsocksWriter w c rnd"
  have ck0: "cipher_ok (sw_ssCipher ?new)" using ck by (simp add: NewShadowsocksWriter_def)
  from sw_run_returns [OF sw_inv_New cipher_ok_seal_ok [OF ck0 flow_New [OF snk rnd]], of ops]
  obtain sw where run: "sw_run ops ?new = Some sw" by blast
  have sz: "\<forall>salt a. Encrypter c salt = Inr a
              \<longrightarrow> 2 * length (concat (map op_data ops)) \<le> 256 ^ NonceSize a"
  proof (intro allI impI)
    fix salt a
    assume "Encrypter c salt = Inr a"
    with ns have "NonceSize a = 12" by blast
    moreover have "2 * length P \<le> (256 :: nat) ^ 12" using size by simp
    ultimately show "2 * length (concat (map op_data ops)) \<le> 256 ^ NonceSize a"
      using P by simp
  qed
  have "(\<forall>w2. results w2 = []
           \<longrightarrow> (\<exists>c' w2'. WriteTo w2 (NewShadowsocksReader r c) = Some ((length P, None), c', w2')
                    \<and> concat (drop (length (written w2)) (written w2')) = P))
        \<and> (\<forall>sizes. \<exists>b e c'.
              Read_seq sizes (NewShadowsocksReader r c) = Some ((b, e), c')
              \<and> (e = None \<or> e = Some EOF)
              \<and> b = take (length b) P
              \<and> (e = Some EOF \<longrightarrow> b = P)
              \<and> (e = None \<and> (\<forall>n \<in> set sizes. 0 < n) \<longrightarrow> length sizes \<le> length b))"
    if fl: "sw_pending sw = 0" and rok: "reader_ok r"
      and rd: "reader_data r = concat (drop (length (written w)) (written (sw_writer sw)))"
    for r
  proof -
    from sink_stream [OF ck rnd snk ops run fl sz]
    consider (empty) "P = []" "reader_data r = []"
      | (chunks) a salt ps where
          "reader_data r = salt @ enc a (replicate (NonceSize a) 0) ps"
          "length salt = SaltSize c" "Decrypter c salt = Inr a" "aead_ok a" "aead_inverts a"
          "\<forall>p \<in> set ps. 0 < length p \<and> length p \<le> payloadSizeMask" "concat ps = P"
      unfolding P rd by blast
    then show ?thesis
    proof cases
      case empty
      have "\<exists>c' w2'. WriteTo w2 (NewShadowsocksReader r c) = Some ((length P, None), c', w2')
              \<and> concat (drop (length (written w2)) (written w2')) = P" for w2
        using WriteTo_new_empty [OF ck rok empty(2), of w2] empty(1) by auto
      moreover have "\<exists>b e c'. Read_seq sizes (NewShadowsocksReader r c) = Some ((b, e), c')
              \<and> (e = None \<or> e = Some EOF) \<and> b = take (length b) P
              \<and> (e = Some EOF \<longrightarrow> b = P)
              \<and> (e = None \<and> (\<forall>n \<in> set sizes. 0 < n) \<longrightarrow> length sizes \<le> length b)"
        for sizes
        using Read_seq_new_empty [OF ck rok empty(2), of sizes] empty(1) by auto
      ultimately show ?thesis by blast
    next
      case chunks
      have lps: "\<forall>p \<in> set ps. length p \<le> payloadSizeMask" using chunks(6) by simp
      have "\<exists>c' w2'. WriteTo w2 (NewShadowsocksReader r c) = Some ((length P, None), c', w2')
              \<and> concat (drop (length (written w2)) (written w2')) = P"
        if "results w2 = []" for w2
        using WriteTo_new_enc [OF rok chunks(1,2,3,4,5) lps that] chunks(7) by auto
      moreover have "\<exists>b e c'. Read_seq sizes (NewShadowsocksReader r c) = Some ((b, e), c')
              \<and> (e = None \<or> e = Some EOF) \<and> b = take (length b) P
              \<and> (e = Some EOF \<longrightarrow> b = P)
              \<and> (e = None \<and> (\<forall>n \<in> set sizes. 0 < n) \<longrightarrow> length sizes \<le> length b)"
        for sizes
        using Read_seq_new_enc [OF rok chunks(1,2,3,4,5,6), of sizes] chunks(7) by simp
      ultimately show ?thesis by blast
    qed
  qed
  with run show ?thesis by blast
qed

text \<open>The stream of the concrete run, read back in three pieces.\<close>

definition testStream :: reader where
  "testStream = [([7, 9, 0], None), ([3, 19, 1, 2, 3, 23, 0, 1, 19, 4], None), ([23], None)]"

lemma test_round_trip_reader:
  "\<exists>c' w2'. WriteTo testSink (NewShadowsocksReader testStream testCipher)
       = Some ((4, None), c', w2')
     \<and> written w2' = [[1, 2, 3], [4]]"
  by (simp add: testStream_def reader_eval_defs WriteTo_def WriteTo_loop.simps WriteTo_iter_def
      ensureLeftover_def leftover_len_def leftover_bytes_def sink_Write_def testSink_def)

lemma test_round_trip_reads:
  "map_option fst (Read_seq [2, 5, 1, 1] (NewShadowsocksReader testStream testCipher))
     = Some ([1, 2, 3, 4], Some EOF)"
  by (simp add: testStream_def reader_eval_defs readConverter_Read_def ensureLeftover_def
      leftover_len_def leftover_bytes_def)

theorem round_trip_witness:
  "cipher_ok testCipher
   \<and> reader_ok testRand \<and> SaltSize testCipher \<le> length (reader_data testRand)
   \<and> results testSink = [] \<and> list_all op_ok testOps
   \<and> concat (map op_data testOps) = [1, 2, 3, 4]
   \<and> (\<exists>sw c' w2'. sw_run testOps (NewShadowsocksWriter testSink testCipher testRand) = Some sw
          \<and> sw_pending sw = 0
          \<and> reader_ok testStream
          \<and> reader_data testStream
              = concat (drop (length (written testSink)) (written (sw_writer sw)))
          \<and> WriteTo testSink (NewShadowsocksReader testStream testCipher)
              = Some ((4, None), c', w2')
          \<and> concat (drop (length (written testSink)) (written w2')) = [1, 2, 3, 4])
   \<and> map_option fst (Read_seq [2, 5, 1, 1] (NewShadowsocksReader testStream testCipher))
       = Some ([1, 2, 3, 4], Some EOF)"
proof -
  have ns: "\<forall>salt a. Encrypter testCipher salt = Inr a \<longrightarrow> NonceSize a = 12"
    by (auto simp: testCipher_def testAEAD_def)
  have rnd: "reader_ok testRand" "SaltSize testCipher \<le> length (reader_data testRand)"
    by (simp_all add: testRand_def testCipher_def)
  have snk: "results testSink = []" by (simp add: testSink_def)
  have ops: "list_all op_ok testOps" by (simp add: testOps_def)
  have P: "[1, 2, 3, 4] = concat (map op_data testOps)" by (simp add: testOps_def)
  have size: "length [1, 2, 3, 4 :: byte] \<le> 10 * 1024 * 1024" by simp
  from round_trip [OF cipher_ok_testCipher ns rnd snk ops P size] obtain sw where
    run: "sw_run testOps (NewShadowsocksWriter testSink testCipher testRand) = Some sw"
    and all: "\<forall>r. sw_pending sw = 0 \<and> reader_ok r
                  \<and> reader_data r
                      = concat (drop (length (written testSink)) (written (sw_writer sw)))
                \<longrightarrow> (\<forall>w2. results w2 = []
                       \<longrightarrow> (\<exists>c' w2'. WriteTo w2 (NewShadowsocksReader r testCipher)
                                          = Some ((length [1, 2, 3, 4 :: byte], None), c', w2')
                                \<and> concat (drop (length (written w2)) (written w2'))
                                    = [1, 2, 3, 4]))
                    \<and> (\<forall>sizes. \<exists>b e c'.
                          Read_seq sizes (NewShadowsocksReader r testCipher) = Some ((b, e), c')
                          \<and> (e = None \<or> e = Some EOF)
                          \<and> b = take (length b) [1, 2, 3, 4]
                          \<and> (e = Some EOF \<longrightarrow> b = [1, 2, 3, 4])
                          \<and> (e = None \<and> (\<forall>n \<in> set sizes. 0 < n)
                               \<longrightarrow> length sizes \<le> length b))"
    by (elim exE conjE)
  from test_run run have p: "sw_pending sw = 0"
    and w: "written (sw_writer sw) = [[7, 9, 0, 3, 19, 1, 2, 3, 23], [0, 1, 19, 4, 23]]"
    by (auto simp: testWriter_def)
  have rok: "reader_ok testStream" by (simp add: testStream_def)
  have rd: "reader_data testStream
              = concat (drop (length (written testSink)) (written (sw_writer sw)))"
    by (simp add: w testStream_def testSink_def)
  note both = all [rule_format, of testStream, OF conjI [OF p conjI [OF rok rd]]]
  from both [THEN conjunct1, rule_format, OF snk] obtain c' w2' where wt:
    "WriteTo testSink (NewShadowsocksReader testStream testCipher) = Some ((4, None), c', w2')"
    "concat (drop (length (written testSink)) (written w2')) = [1, 2, 3, 4]"
    by auto
  from both [THEN conjunct2, rule_format, of "[2, 5, 1, 1]"] obtain b e c'' where
    rs: "Read_seq [2, 5, 1, 1] (NewShadowsocksReader testStream testCipher) = Some ((b, e), c'')"
    and eof: "e = Some EOF \<longrightarrow> b = [1, 2, 3, 4]"
    by blast
  from test_round_trip_reads rs have "e = Some EOF" by simp
  with eof rs have "map_option fst (Read_seq [2, 5, 1, 1] (NewShadowsocksReader testStream testCipher))
       = Some ([1, 2, 3, 4], Some EOF)"
    by simp
  with cipher_ok_testCipher rnd snk ops P run p rok rd wt show ?thesis by auto
qed

end
